theory Spec2Isabelle
  imports Main "HOL-Library.AList"
begin

section \<open>Role hierarchy (role-hierarchy.ts)\<close>

text \<open>
  The type \<open>Role\<close> of the source is the union of six string literals. It is a datatype
  here; \<open>role_name\<close> gives back the string, which the permission engine needs for the
  cache key and for comparing with the role names of a policy rule.
\<close>

datatype Role = OrgOwner | OrgAdmin | OrgMember | WsAdmin | WsMember | WsViewer

fun role_name :: "Role \<Rightarrow> string" where
  "role_name OrgOwner = ''org:owner''"
| "role_name OrgAdmin = ''org:admin''"
| "role_name OrgMember = ''org:member''"
| "role_name WsAdmin = ''ws:admin''"
| "role_name WsMember = ''ws:member''"
| "role_name WsViewer = ''ws:viewer''"

record UserRole =
  ur_userId :: string
  ur_role :: Role
  ur_scope :: string
  ur_grantedAt :: int
  ur_grantedBy :: string

text \<open>\<open>role.startsWith('org:')\<close> and \<open>role.startsWith('ws:')\<close>.\<close>

definition startsWith :: "string \<Rightarrow> string \<Rightarrow> bool" where
  "startsWith s p = (take (length p) s = p)"

definition ORG_HIERARCHY :: "Role \<Rightarrow> int option" where
  "ORG_HIERARCHY r =
     (case r of OrgOwner \<Rightarrow> Some 3 | OrgAdmin \<Rightarrow> Some 2 | OrgMember \<Rightarrow> Some 1 | _ \<Rightarrow> None)"

definition WS_HIERARCHY :: "Role \<Rightarrow> int option" where
  "WS_HIERARCHY r =
     (case r of WsAdmin \<Rightarrow> Some 3 | WsMember \<Rightarrow> Some 2 | WsViewer \<Rightarrow> Some 1 | _ \<Rightarrow> None)"

text \<open>\<open>table[role] || 0\<close>: a missing entry counts as level 0.\<close>

definition level_or_0 :: "int option \<Rightarrow> int" where
  "level_or_0 v = (case v of None \<Rightarrow> 0 | Some n \<Rightarrow> n)"

definition getRoleLevel :: "Role \<Rightarrow> int" where
  "getRoleLevel r =
     (if startsWith (role_name r) ''org:'' then level_or_0 (ORG_HIERARCHY r)
      else if startsWith (role_name r) ''ws:'' then level_or_0 (WS_HIERARCHY r)
      else 0)"

definition roleIncludes :: "Role \<Rightarrow> Role \<Rightarrow> bool" where
  "roleIncludes roleA roleB =
     (if startsWith (role_name roleA) ''org:'' \<noteq> startsWith (role_name roleB) ''org:'' then False
      else getRoleLevel roleA \<ge> getRoleLevel roleB)"

definition getImpliedRoles :: "Role \<Rightarrow> Role list" where
  "getImpliedRoles r =
     (let level = getRoleLevel r in
      if startsWith (role_name r) ''org:''
      then filter (\<lambda>x. level_or_0 (ORG_HIERARCHY x) \<le> level) [OrgOwner, OrgAdmin, OrgMember]
      else if startsWith (role_name r) ''ws:''
      then filter (\<lambda>x. level_or_0 (WS_HIERARCHY x) \<le> level) [WsAdmin, WsMember, WsViewer]
      else [r])"

text \<open>
  \<open>getHighestRole\<close>: the grants whose scope is the given one or the wildcard, reduced from
  \<open>null\<close>; a later grant replaces the running maximum only when its level is strictly higher.
\<close>

definition getHighestRole :: "UserRole list \<Rightarrow> string \<Rightarrow> Role option" where
  "getHighestRole roles scope =
     (let applicableRoles = filter (\<lambda>r. ur_scope r = scope \<or> ur_scope r = ''*'') roles in
      if length applicableRoles = 0 then None
      else foldl (\<lambda>highest current.
                   case highest of
                     None \<Rightarrow> Some (ur_role current)
                   | Some h \<Rightarrow>
                       if getRoleLevel (ur_role current) > getRoleLevel h
                       then Some (ur_role current) else Some h)
                 None applicableRoles)"

definition hasRoleOrHigher :: "UserRole list \<Rightarrow> Role \<Rightarrow> string \<Rightarrow> bool" where
  "hasRoleOrHigher userRoles requiredRole scope =
     (case getHighestRole userRoles scope of
        None \<Rightarrow> False
      | Some highestRole \<Rightarrow> roleIncludes highestRole requiredRole)"

text \<open>
  A JavaScript \<open>Set\<close> keeps its elements in insertion order and ignores a second
  \<open>add\<close> of the same element; \<open>Array.from\<close> reads it back in that order.
\<close>

definition set_add :: "'a \<Rightarrow> 'a list \<Rightarrow> 'a list" where
  "set_add x s = (if x \<in> set s then s else s @ [x])"

definition add_each :: "'a list \<Rightarrow> 'a list \<Rightarrow> 'a list" where
  "add_each xs s = foldl (\<lambda>acc x. set_add x acc) s xs"

definition getEffectiveRoles :: "UserRole list \<Rightarrow> string \<Rightarrow> string \<Rightarrow> Role list" where
  "getEffectiveRoles userRoles workspaceId orgId =
     (let roles0 =
        (case getHighestRole userRoles orgId of
           None \<Rightarrow> []
         | Some orgRole \<Rightarrow>
             (let implied = add_each (getImpliedRoles orgRole) [] in
              if orgRole = OrgOwner \<or> orgRole = OrgAdmin
              then set_add WsViewer (set_add WsMember (set_add WsAdmin implied))
              else implied))
      in foldl (\<lambda>acc r. add_each (getImpliedRoles (ur_role r)) acc) roles0
           (filter (\<lambda>r. ur_scope r = workspaceId) userRoles))"

section \<open>Permissions, policy rules and decisions (rbac/index.ts)\<close>

text \<open>
  \<open>resource\<close>, \<open>action\<close> and \<open>scope\<close> are strings: the grant tables store the wildcard
  \<open>'*'\<close> in fields typed \<open>ResourceType\<close> and \<open>ActionType\<close>, and the engine only ever
  compares them for equality. The optional \<open>conditions\<close> of a permission and the
  \<open>alertRecipients\<close> of a rule are never read by the engine and are left out.
\<close>

record Permission =
  perm_resource :: string
  perm_action :: string
  perm_scope :: string

record PolicyRule =
  rule_id :: string
  rule_name :: string
  rule_description :: string
  rule_roles :: "string list"
  rule_permissions :: "Permission list"
  rule_approvalRequired :: bool

record AccessDecision =
  granted :: bool
  approvalRequired :: bool
  reason :: string
  policyId :: "string option"

section \<open>Policy cache (policy-cache.ts)\<close>

text \<open>
  The cache is a JavaScript \<open>Map\<close>: an association list in insertion order with distinct
  keys. \<open>Map.set\<close> on a present key replaces the value in place and on a new key appends
  (\<open>AList.update\<close>); \<open>Map.delete\<close> removes the key (\<open>AList.delete\<close>). Times are
  milliseconds as integers; \<open>Date.now()\<close> is the parameter \<open>now\<close>.
\<close>

record CacheEntry =
  entry_value :: AccessDecision
  entry_expiresAt :: int

record PolicyCache =
  cache :: "(string \<times> CacheEntry) list"
  ttlMs :: int
  maxSize :: int
  hits :: nat
  misses :: nat

definition new_PolicyCache :: "int \<Rightarrow> int \<Rightarrow> PolicyCache" where
  "new_PolicyCache ttl maxsz =
     \<lparr>cache = [], ttlMs = ttl, maxSize = maxsz, hits = 0, misses = 0\<rparr>"

definition cache_size :: "PolicyCache \<Rightarrow> nat" where
  "cache_size c = length (cache c)"

definition cache_get :: "PolicyCache \<Rightarrow> int \<Rightarrow> string \<Rightarrow> AccessDecision option \<times> PolicyCache" where
  "cache_get c now key =
     (case map_of (cache c) key of
        None \<Rightarrow> (None, c\<lparr>misses := misses c + 1\<rparr>)
      | Some entry \<Rightarrow>
          if now > entry_expiresAt entry
          then (None, c\<lparr>cache := AList.delete key (cache c), misses := misses c + 1\<rparr>)
          else (Some (entry_value entry), c\<lparr>hits := hits c + 1\<rparr>))"

text \<open>
  \<open>Math.ceil(maxSize * 0.1)\<close>, over the integers. (The source multiplies in double
  precision, where the product can land just above the exact tenth and the ceiling is
  then one more; nothing below depends on more than the count being at least 1 for a
  positive \<open>maxSize\<close>.)
\<close>

definition entriesToEvict :: "int \<Rightarrow> int" where
  "entriesToEvict maxsz = (maxsz + 9) div 10"

text \<open>
  \<open>evictOldest\<close>: the entries sorted by \<open>expiresAt\<close> ascending (the sort of an array is
  stable, as \<open>sort_key\<close> is), and the keys of the first \<open>entriesToEvict\<close> of them deleted
  one by one. A count that is not positive deletes nothing.
\<close>

definition sorted_entries :: "(string \<times> CacheEntry) list \<Rightarrow> (string \<times> CacheEntry) list" where
  "sorted_entries es = sort_key (\<lambda>e. entry_expiresAt (snd e)) es"

definition delete_keys :: "string list \<Rightarrow> (string \<times> CacheEntry) list \<Rightarrow> (string \<times> CacheEntry) list" where
  "delete_keys ks es = foldl (\<lambda>acc k. AList.delete k acc) es ks"

definition evictOldest :: "PolicyCache \<Rightarrow> PolicyCache" where
  "evictOldest c =
     c\<lparr>cache := delete_keys
                  (map fst (take (nat (entriesToEvict (maxSize c))) (sorted_entries (cache c))))
                  (cache c)\<rparr>"

definition cache_set :: "PolicyCache \<Rightarrow> int \<Rightarrow> string \<Rightarrow> AccessDecision \<Rightarrow> PolicyCache" where
  "cache_set c now key v =
     (let c1 = (if int (length (cache c)) \<ge> maxSize c then evictOldest c else c) in
      c1\<lparr>cache := AList.update key \<lparr>entry_value = v, entry_expiresAt = now + ttlMs c1\<rparr> (cache c1)\<rparr>)"

definition cache_clear :: "PolicyCache \<Rightarrow> PolicyCache" where
  "cache_clear c = c\<lparr>cache := [], hits := 0, misses := 0\<rparr>"

definition clearExpired :: "PolicyCache \<Rightarrow> int \<Rightarrow> PolicyCache" where
  "clearExpired c now = c\<lparr>cache := filter (\<lambda>e. \<not> now > entry_expiresAt (snd e)) (cache c)\<rparr>"

section \<open>Permission engine (permission-engine.ts)\<close>

definition grant :: "string \<Rightarrow> string \<Rightarrow> string \<Rightarrow> Permission" where
  "grant r a s = \<lparr>perm_resource = r, perm_action = a, perm_scope = s\<rparr>"

fun DEFAULT_PERMISSIONS :: "Role \<Rightarrow> Permission list" where
  "DEFAULT_PERMISSIONS OrgOwner = [grant ''*'' ''*'' ''*'']"
| "DEFAULT_PERMISSIONS OrgAdmin =
     [grant ''workspace'' ''create'' ''*'',
      grant ''workspace'' ''read'' ''*'',
      grant ''workspace'' ''update'' ''*'',
      grant ''user'' ''create'' ''*'',
      grant ''user'' ''read'' ''*'',
      grant ''user'' ''update'' ''*'',
      grant ''audit'' ''read'' ''*'']"
| "DEFAULT_PERMISSIONS OrgMember = [grant ''workspace'' ''read'' ''*'']"
| "DEFAULT_PERMISSIONS WsAdmin =
     [grant ''agent'' ''create'' ''workspace'',
      grant ''agent'' ''read'' ''workspace'',
      grant ''agent'' ''update'' ''workspace'',
      grant ''agent'' ''delete'' ''workspace'',
      grant ''memory'' ''read'' ''workspace'',
      grant ''memory'' ''update'' ''workspace'',
      grant ''integration'' ''create'' ''workspace'',
      grant ''integration'' ''read'' ''workspace'',
      grant ''integration'' ''update'' ''workspace'',
      grant ''tool'' ''execute'' ''workspace'']"
| "DEFAULT_PERMISSIONS WsMember =
     [grant ''agent'' ''read'' ''workspace'',
      grant ''agent'' ''execute'' ''workspace'',
      grant ''memory'' ''read'' ''workspace'',
      grant ''tool'' ''execute'' ''workspace'']"
| "DEFAULT_PERMISSIONS WsViewer =
     [grant ''agent'' ''read'' ''workspace'',
      grant ''memory'' ''read'' ''workspace'']"

record PermissionContext =
  userId :: string
  orgId :: string
  workspaceId :: "string option"
  userRoles :: "UserRole list"
  policies :: "PolicyRule list option"

text \<open>
  \<open>a || b\<close> on an optional string: \<open>undefined\<close> and the empty string are both falsy.
\<close>

definition str_or :: "string option \<Rightarrow> string \<Rightarrow> string" where
  "str_or a b = (case a of None \<Rightarrow> b | Some s \<Rightarrow> if s = [] then b else s)"

text \<open>One permission of a default grant table against the request.\<close>

definition defaultPermMatches :: "string \<Rightarrow> string \<Rightarrow> string \<Rightarrow> Permission \<Rightarrow> bool" where
  "defaultPermMatches resource action scope perm =
     (if perm_resource perm = ''*'' \<and> perm_action perm = ''*'' then True
      else
        (let resourceMatch = (perm_resource perm = resource \<or> perm_resource perm = ''*'');
             actionMatch = (perm_action perm = action \<or> perm_action perm = ''*'');
             scopeMatch = (perm_scope perm = ''*'' \<or> perm_scope perm = scope
                           \<or> perm_scope perm = ''workspace'')
         in resourceMatch \<and> actionMatch \<and> scopeMatch))"

definition checkDefaultPermissions :: "Role list \<Rightarrow> string \<Rightarrow> string \<Rightarrow> string \<Rightarrow> bool" where
  "checkDefaultPermissions roles resource action scope =
     list_ex (\<lambda>role. list_ex (defaultPermMatches resource action scope) (DEFAULT_PERMISSIONS role))
       roles"

definition policyPermMatches :: "string \<Rightarrow> string \<Rightarrow> string \<Rightarrow> Permission \<Rightarrow> bool" where
  "policyPermMatches resource action scope perm =
     (let resourceMatch = (perm_resource perm = resource \<or> perm_resource perm = ''*'');
          actionMatch = (perm_action perm = action \<or> perm_action perm = ''*'');
          scopeMatch = (perm_scope perm = ''*'' \<or> perm_scope perm = scope)
      in resourceMatch \<and> actionMatch \<and> scopeMatch)"

text \<open>\<open>roles.join(',')\<close>.\<close>

fun join :: "string \<Rightarrow> string list \<Rightarrow> string" where
  "join sep [] = []"
| "join sep [x] = x"
| "join sep (x # y # ys) = x @ sep @ join sep (y # ys)"

definition cacheKey :: "Role list \<Rightarrow> string \<Rightarrow> string \<Rightarrow> string \<Rightarrow> string" where
  "cacheKey roles resource action scope =
     join '','' (map role_name roles) @ ''-'' @ resource @ ''-'' @ action @ ''-'' @ scope"

text \<open>
  The scan of \<open>checkPolicies\<close> after a cache miss: the first rule, in order, one of whose
  role names is among the caller's roles and one of whose permissions matches.
\<close>

fun scanPolicies ::
  "PolicyRule list \<Rightarrow> Role list \<Rightarrow> string \<Rightarrow> string \<Rightarrow> string \<Rightarrow> AccessDecision option" where
  "scanPolicies [] roles resource action scope = None"
| "scanPolicies (policy # rest) roles resource action scope =
     (let roleMatches = list_ex (\<lambda>policyRole. policyRole \<in> set (map role_name roles))
                          (rule_roles policy) in
      if \<not> roleMatches then scanPolicies rest roles resource action scope
      else if list_ex (policyPermMatches resource action scope) (rule_permissions policy)
      then Some \<lparr>granted = True,
                 approvalRequired = rule_approvalRequired policy,
                 reason = (if rule_approvalRequired policy
                           then ''Granted with approval required''
                           else ''Granted by policy: '' @ rule_name policy),
                 policyId = Some (rule_id policy)\<rparr>
      else scanPolicies rest roles resource action scope)"

definition checkPolicies ::
  "PolicyCache \<Rightarrow> int \<Rightarrow> PolicyRule list \<Rightarrow> Role list \<Rightarrow> string \<Rightarrow> string \<Rightarrow> string
     \<Rightarrow> AccessDecision \<times> PolicyCache" where
  "checkPolicies pc now pols roles resource action scope =
     (let key = cacheKey roles resource action scope in
      case cache_get pc now key of
        (Some cached, pc1) \<Rightarrow> (cached, pc1)
      | (None, pc1) \<Rightarrow>
          (case scanPolicies pols roles resource action scope of
             Some decision \<Rightarrow> (decision, cache_set pc1 now key decision)
           | None \<Rightarrow>
               (let decision = \<lparr>granted = False, approvalRequired = False,
                                reason = ''No matching policy found'', policyId = None\<rparr>
                in (decision, cache_set pc1 now key decision))))"

text \<open>
  The engine owns one private cache. \<open>checkPermission\<close> returns the decision and the
  engine after the call. Each branch of the source also hands the decision to
  \<open>logAccessDecision\<close>, which appends an event to a buffer of the audit module and
  returns nothing; it does not touch the decision or the cache and is not modelled.
\<close>

record PermissionEngine =
  policyCache :: PolicyCache

definition new_PermissionEngine :: "int \<Rightarrow> PermissionEngine" where
  "new_PermissionEngine cacheTtlMs = \<lparr>policyCache = new_PolicyCache cacheTtlMs 10000\<rparr>"

definition checkPermission ::
  "PermissionEngine \<Rightarrow> int \<Rightarrow> PermissionContext \<Rightarrow> string \<Rightarrow> string \<Rightarrow> string option
     \<Rightarrow> AccessDecision \<times> PermissionEngine" where
  "checkPermission eng now context resource action targetScope =
     (let scope = str_or targetScope (str_or (workspaceId context) (orgId context));
          effectiveRoles = getEffectiveRoles (userRoles context)
                             (str_or (workspaceId context) []) (orgId context)
      in
      if checkDefaultPermissions effectiveRoles resource action scope
      then (\<lparr>granted = True, approvalRequired = False,
              reason = ''Granted by role permissions'', policyId = None\<rparr>, eng)
      else
        (case policies context of
           Some (p # ps) \<Rightarrow>
             (case checkPolicies (policyCache eng) now (p # ps) effectiveRoles resource action scope of
                (policyDecision, pc') \<Rightarrow> (policyDecision, eng\<lparr>policyCache := pc'\<rparr>))
         | _ \<Rightarrow>
             (\<lparr>granted = False, approvalRequired = False,
               reason = ''No matching permissions found'', policyId = None\<rparr>, eng)))"

definition clearCache :: "PermissionEngine \<Rightarrow> PermissionEngine" where
  "clearCache eng = eng\<lparr>policyCache := cache_clear (policyCache eng)\<rparr>"

section \<open>Approval workflow (approval-workflow.ts)\<close>

text \<open>
  Dates are milliseconds as integers and \<open>new Date()\<close> is the parameter \<open>now\<close> of each
  operation. A thrown \<open>Error\<close> is the left summand of the result. The free-form
  \<open>context\<close>, \<open>reason\<close> and \<open>alertSent\<close> fields are never read by the workflow and are
  left out. The generated id of \<open>create\<close> is a parameter. Clock readings and
  durations are those a \<open>Date\<close> can hold (at most 8.64e15 ms from the epoch, where the
  arithmetic of the source is exact); beyond that range \<open>new Date\<close> gives an invalid
  date, which this model does not represent.
\<close>

datatype ApprovalState = Pending | Approved | Denied | Expired | Cancelled

datatype ApprovalType = Single | Majority | Unanimous | Sequential

datatype Verdict = Approve | Deny

record ApprovalAction =
  approverId :: string
  verdict :: Verdict
  timestamp :: int
  comment :: "string option"

record ApprovalRequest =
  req_id :: string
  req_userId :: string
  req_orgId :: string
  req_workspaceId :: "string option"
  req_resource :: string
  req_action :: string
  req_scope :: string
  req_type :: ApprovalType
  approvers :: "string list"
  requiredApprovals :: int
  state :: ApprovalState
  createdAt :: int
  expiresAt :: int
  approvals :: "ApprovalAction list"
  completedAt :: "int option"

record ApprovalWorkflowConfig =
  cfg_type :: ApprovalType
  cfg_approvers :: "string list"
  expirationMinutes :: int
  cfg_requiredApprovals :: "int option"

datatype workflow_error =
    NotPending ApprovalState
  | NotAuthorized
  | AlreadyActed
  | CannotCancel ApprovalState

definition create ::
  "string \<Rightarrow> string \<Rightarrow> string \<Rightarrow> string \<Rightarrow> string \<Rightarrow> string \<Rightarrow> ApprovalWorkflowConfig
     \<Rightarrow> string option \<Rightarrow> int \<Rightarrow> ApprovalRequest" where
  "create newId user org resource action scope config ws now =
     \<lparr>req_id = newId, req_userId = user, req_orgId = org, req_workspaceId = ws,
      req_resource = resource, req_action = action, req_scope = scope,
      req_type = cfg_type config,
      approvers = cfg_approvers config,
      requiredApprovals =
        (case cfg_requiredApprovals config of None \<Rightarrow> 1 | Some n \<Rightarrow> if n = 0 then 1 else n),
      state = Pending,
      createdAt = now,
      expiresAt = now + expirationMinutes config * 60 * 1000,
      approvals = [],
      completedAt = None\<rparr>"

text \<open>
  The ordering loop of the sequential case: position \<open>i\<close> of the approving actions
  against \<open>approvers[i]\<close>; past the end of \<open>approvers\<close> the read is \<open>undefined\<close>,
  which differs from every approver id.
\<close>

fun outOfOrder :: "ApprovalAction list \<Rightarrow> string list \<Rightarrow> bool" where
  "outOfOrder [] as = False"
| "outOfOrder (a # rest) [] = True"
| "outOfOrder (a # rest) (expected # as) = (approverId a \<noteq> expected \<or> outOfOrder rest as)"

text \<open>\<open>{ ...request, state, completedAt: new Date() }\<close>.\<close>

definition finish :: "ApprovalRequest \<Rightarrow> ApprovalState \<Rightarrow> int \<Rightarrow> ApprovalRequest" where
  "finish request s now = request\<lparr>state := s, completedAt := Some now\<rparr>"

definition updateState :: "ApprovalRequest \<Rightarrow> int \<Rightarrow> ApprovalRequest" where
  "updateState request now =
     (let approves = filter (\<lambda>a. verdict a = Approve) (approvals request);
          denials = filter (\<lambda>a. verdict a = Deny) (approvals request)
      in case req_type request of
           Single \<Rightarrow>
             if length approves \<ge> 1 then finish request Approved now
             else if length denials \<ge> 1 then finish request Denied now
             else request
         | Majority \<Rightarrow>
             (let required = requiredApprovals request in
              if int (length approves) \<ge> required then finish request Approved now
              else
                (let remaining = int (length (approvers request)) - int (length (approvals request)) in
                 if int (length approves) + remaining < required then finish request Denied now
                 else request))
         | Unanimous \<Rightarrow>
             if length denials \<ge> 1 then finish request Denied now
             else if length approves = length (approvers request) then finish request Approved now
             else request
         | Sequential \<Rightarrow>
             if length denials \<ge> 1 then finish request Denied now
             else if outOfOrder approves (approvers request) then finish request Denied now
             else if length approves = length (approvers request) then finish request Approved now
             else request)"

definition processAction ::
  "ApprovalRequest \<Rightarrow> string \<Rightarrow> Verdict \<Rightarrow> string option \<Rightarrow> int \<Rightarrow> workflow_error + ApprovalRequest" where
  "processAction request approver action cmt now =
     (if state request \<noteq> Pending then Inl (NotPending (state request))
      else if now > expiresAt request then Inr (request\<lparr>state := Expired\<rparr>)
      else if approver \<notin> set (approvers request) then Inl NotAuthorized
      else if list_ex (\<lambda>a. approverId a = approver) (approvals request) then Inl AlreadyActed
      else
        (let newApprovals = approvals request @
               [\<lparr>approverId = approver, verdict = action, timestamp = now, comment = cmt\<rparr>];
             updated = request\<lparr>approvals := newApprovals\<rparr>
         in Inr (updateState updated now)))"

definition cancel :: "ApprovalRequest \<Rightarrow> int \<Rightarrow> workflow_error + ApprovalRequest" where
  "cancel request now =
     (if state request \<noteq> Pending then Inl (CannotCancel (state request))
      else Inr (request\<lparr>state := Cancelled, completedAt := Some now\<rparr>))"

definition checkExpiration :: "ApprovalRequest \<Rightarrow> int \<Rightarrow> ApprovalRequest" where
  "checkExpiration request now =
     (if state request = Pending \<and> now > expiresAt request
      then request\<lparr>state := Expired, completedAt := Some now\<rparr>
      else request)"

section \<open>Audit logger (audit-logger.ts)\<close>

text \<open>
  \<open>flush\<close> writes the buffered events to the stream one line each and then syncs. What
  the disk does is a parameter: \<open>failAt = Some i\<close> makes the write of line \<open>i\<close> reject
  (lines before it were accepted), \<open>syncOk = False\<close> makes the sync reject. \<open>written\<close>
  collects the lines the stream accepted. A rejected promise is the left summand; the
  \<open>finally\<close> block resets \<open>flushing\<close> on both ways out.
\<close>

datatype io_error = WriteFailed | SyncFailed

record 'e AuditLogger =
  buffer :: "'e list"
  flushing :: bool
  written :: "'e list"

definition flush ::
  "'e AuditLogger \<Rightarrow> nat option \<Rightarrow> bool \<Rightarrow> (io_error + unit) \<times> 'e AuditLogger" where
  "flush lg failAt syncOk =
     (if flushing lg \<or> length (buffer lg) = 0 then (Inr (), lg)
      else
        (let events = buffer lg;
             lg1 = lg\<lparr>flushing := True, buffer := []\<rparr>
         in case failAt of
              Some i \<Rightarrow>
                if i < length events
                then (Inl WriteFailed,
                      lg1\<lparr>written := written lg1 @ take i events, flushing := False\<rparr>)
                else if syncOk
                then (Inr (), lg1\<lparr>written := written lg1 @ events, flushing := False\<rparr>)
                else (Inl SyncFailed, lg1\<lparr>written := written lg1 @ events, flushing := False\<rparr>)
            | None \<Rightarrow>
                if syncOk
                then (Inr (), lg1\<lparr>written := written lg1 @ events, flushing := False\<rparr>)
                else (Inl SyncFailed, lg1\<lparr>written := written lg1 @ events, flushing := False\<rparr>)))"

section \<open>PII redactor (pii-redactor.ts)\<close>

text \<open>
  The redaction rules are regular expressions, so the model carries a small backtracking
  matcher with the constructs the rules use: a character class, sequence, alternation,
  a greedy counted repetition \<open>{lo,hi}\<close> (\<open>hi = None\<close> for no upper bound) and the
  word boundary \<open>\\b\<close>. A position is the character before the cursor (if any) and the
  text after it. \<open>rmatch\<close> lists the positions where a match starting at the given
  position can end, in the order a backtracking matcher tries them (one more repetition
  before stopping, the left alternative before the right), so the head of the list is
  the match JavaScript finds. A \<open>string\<close> is read as a sequence of code units below
  256; among them \<open>\\d\<close> and the word characters of \<open>\\b\<close> are ASCII, \<open>\\s\<close> has the
  six ASCII spaces and the no-break space, and the flag \<open>i\<close> identifies only the ASCII
  letters of both cases. The rules have no capture groups.
\<close>

datatype regex =
    Chars "char list"
  | Empty
  | Cat regex regex
  | Alt regex regex
  | Rep regex nat "nat option"
  | WordBoundary

type_synonym pos = "char option \<times> string"

definition lowers :: string where "lowers = ''abcdefghijklmnopqrstuvwxyz''"
definition uppers :: string where "uppers = ''ABCDEFGHIJKLMNOPQRSTUVWXYZ''"
definition digits :: string where "digits = ''0123456789''"
definition spaces :: string where
  "spaces = [CHR '' '', CHR 0x09, CHR 0x0A, CHR 0x0B, CHR 0x0C, CHR 0x0D, CHR 0xA0]"

definition isWordChar :: "char \<Rightarrow> bool" where
  "isWordChar c = (c \<in> set (lowers @ uppers @ digits @ ''_''))"

definition atWordBoundary :: "pos \<Rightarrow> bool" where
  "atWordBoundary p =
     ((case fst p of None \<Rightarrow> False | Some c \<Rightarrow> isWordChar c)
        \<noteq> (case snd p of [] \<Rightarrow> False | c # _ \<Rightarrow> isWordChar c))"

text \<open>
  Greedy repetition \<open>{lo,hi}\<close>, as the language defines it: with \<open>hi = 0\<close> stop; while
  rounds are still owed (\<open>lo > 0\<close>) another round is the only way on, and it may consume
  nothing; after that, one more round is tried before stopping, and a round that
  consumes nothing is refused. Each step either pays an owed round or consumes a
  character, so \<open>lo\<close> plus the length of the remaining text bounds the depth.
\<close>

fun rep :: "(pos \<Rightarrow> pos list) \<Rightarrow> nat \<Rightarrow> nat \<Rightarrow> nat option \<Rightarrow> pos \<Rightarrow> pos list" where
  "rep m 0 lo hi p = (if hi = Some 0 \<or> lo = 0 then [p] else [])"
| "rep m (Suc fuel) lo hi p =
     (if hi = Some 0 then [p]
      else if lo \<noteq> 0
      then concat (map (rep m fuel (lo - 1) (map_option (\<lambda>h. h - 1) hi)) (m p))
      else concat (map (rep m fuel 0 (map_option (\<lambda>h. h - 1) hi))
                    (filter (\<lambda>q. length (snd q) < length (snd p)) (m p)))
           @ [p])"

fun rmatch :: "regex \<Rightarrow> pos \<Rightarrow> pos list" where
  "rmatch (Chars cs) p =
     (case snd p of [] \<Rightarrow> [] | c # r \<Rightarrow> if c \<in> set cs then [(Some c, r)] else [])"
| "rmatch Empty p = [p]"
| "rmatch (Cat a b) p = concat (map (rmatch b) (rmatch a p))"
| "rmatch (Alt a b) p = rmatch a p @ rmatch b p"
| "rmatch (Rep a lo hi) p = rep (rmatch a) (lo + length (snd p)) lo hi p"
| "rmatch WordBoundary p = (if atWordBoundary p then [p] else [])"

text \<open>
  The replacement string of \<open>String.prototype.replace\<close> is a template: \<open>$$\<close> stands
  for a dollar sign, \<open>$&\<close> for the matched text, a dollar sign with a backquote for
  the subject before the match and with an apostrophe for the subject after it. With no
  capture groups every other \<open>$\<close> stands for itself.
\<close>

fun expand :: "string \<Rightarrow> string \<Rightarrow> string \<Rightarrow> string \<Rightarrow> string" where
  "expand [] matched prefix suffix = []"
| "expand [c] matched prefix suffix = [c]"
| "expand (c # d # r) matched prefix suffix =
     (if c = CHR ''$'' \<and> d = CHR ''$'' then CHR ''$'' # expand r matched prefix suffix
      else if c = CHR ''$'' \<and> d = CHR ''&'' then matched @ expand r matched prefix suffix
      else if c = CHR ''$'' \<and> d = CHR 0x60 then prefix @ expand r matched prefix suffix
      else if c = CHR ''$'' \<and> d = CHR 0x27 then suffix @ expand r matched prefix suffix
      else c # expand (d # r) matched prefix suffix)"

text \<open>
  \<open>String.prototype.replace\<close> with a pattern: scan the subject from the left; at a match
  emit the expanded replacement and, for a pattern with the flag \<open>g\<close>, continue after the
  match (\<open>skip\<close> counts the matched characters still to pass over; after an empty match
  the next character is copied), for a pattern without it copy the rest; where nothing
  matches copy the character. \<open>seen\<close> is the part of the subject already passed, last
  character first.
\<close>

definition lastSeen :: "string \<Rightarrow> char option" where
  "lastSeen seen = (case seen of [] \<Rightarrow> None | c # _ \<Rightarrow> Some c)"

fun scan :: "regex \<Rightarrow> bool \<Rightarrow> string \<Rightarrow> nat \<Rightarrow> string \<Rightarrow> string \<Rightarrow> string" where
  "scan rx global repl skip seen [] =
     (if skip = 0 \<and> rmatch rx (lastSeen seen, []) \<noteq> []
      then expand repl [] (rev seen) [] else [])"
| "scan rx global repl skip seen (c # cs) =
     (if skip > 0 then scan rx global repl (skip - 1) (c # seen) cs
      else
        (case rmatch rx (lastSeen seen, c # cs) of
           [] \<Rightarrow> c # scan rx global repl 0 (c # seen) cs
         | q # _ \<Rightarrow>
             (let n = length (c # cs) - length (snd q);
                  out = expand repl (take n (c # cs)) (rev seen) (snd q)
              in if \<not> global then out @ snd q
                 else if n = 0 then out @ c # scan rx global repl 0 (c # seen) cs
                 else out @ scan rx global repl (n - 1) (c # seen) cs)))"

definition replace :: "regex \<Rightarrow> bool \<Rightarrow> string \<Rightarrow> string \<Rightarrow> string" where
  "replace rx global repl s = scan rx global repl 0 [] s"

text \<open>\<open>RegExp.prototype.test\<close> of a pattern without flags \<open>g\<close> or \<open>y\<close>: a match anywhere.\<close>

fun test_from :: "regex \<Rightarrow> char option \<Rightarrow> string \<Rightarrow> bool" where
  "test_from rx prev [] = (rmatch rx (prev, []) \<noteq> [])"
| "test_from rx prev (c # cs) = (rmatch rx (prev, c # cs) \<noteq> [] \<or> test_from rx (Some c) cs)"

definition regex_test :: "regex \<Rightarrow> string \<Rightarrow> bool" where
  "regex_test rx s = test_from rx None s"

text \<open>Notation for writing the rules: sequences, alternatives, literals, the flag \<open>i\<close>.\<close>

definition seq :: "regex list \<Rightarrow> regex" where
  "seq rs = foldr Cat rs Empty"

definition alts :: "regex list \<Rightarrow> regex" where
  "alts rs = foldr Alt (butlast rs) (last rs)"

definition lit :: "string \<Rightarrow> regex" where
  "lit s = seq (map (\<lambda>c. Chars [c]) s)"

definition bothCases :: "char \<Rightarrow> char list" where
  "bothCases c =
     (case map_of (zip lowers uppers) c of Some u \<Rightarrow> [c, u]
      | None \<Rightarrow> (case map_of (zip uppers lowers) c of Some l \<Rightarrow> [c, l] | None \<Rightarrow> [c]))"

definition lit_i :: "string \<Rightarrow> regex" where
  "lit_i s = seq (map (\<lambda>c. Chars (bothCases c)) s)"

definition opt :: "regex \<Rightarrow> regex" where "opt r = Rep r 0 (Some 1)"
definition exactly :: "nat \<Rightarrow> regex \<Rightarrow> regex" where "exactly n r = Rep r n (Some n)"
definition atLeastTimes :: "nat \<Rightarrow> regex \<Rightarrow> regex" where "atLeastTimes n r = Rep r n None"
definition digit :: regex where "digit = Chars digits"

text \<open>
  A rule: its name, its pattern with the flag \<open>g\<close> apart (the flag \<open>i\<close> is written into
  the pattern), and the replacement template.
\<close>

record RedactionPattern =
  rp_name :: string
  rp_regex :: regex
  rp_global :: bool
  rp_replacement :: string

definition DEFAULT_REDACTION_PATTERNS :: "RedactionPattern list" where
  "DEFAULT_REDACTION_PATTERNS =
     [\<lparr>rp_name = ''API_KEY'',
       rp_regex = seq [WordBoundary,
                       alts [lit_i ''sk'', lit_i ''pk'', lit_i ''key'', lit_i ''api'', lit_i ''token''],
                       lit ''_'',
                       atLeastTimes 16 (Chars (lowers @ uppers @ digits @ ''_'')),
                       WordBoundary],
       rp_global = True,
       rp_replacement = ''[API_KEY_REDACTED]''\<rparr>,
      \<lparr>rp_name = ''SSN'',
       rp_regex = seq [WordBoundary, exactly 3 digit, lit ''-'', exactly 2 digit, lit ''-'',
                       exactly 4 digit, WordBoundary],
       rp_global = True,
       rp_replacement = ''***-**-****''\<rparr>,
      \<lparr>rp_name = ''SSN_NO_DASHES'',
       rp_regex = seq [WordBoundary, exactly 9 digit, WordBoundary],
       rp_global = True,
       rp_replacement = ''*********''\<rparr>,
      \<lparr>rp_name = ''CREDIT_CARD'',
       rp_regex = seq [WordBoundary,
                       exactly 3 (seq [exactly 4 digit, opt (Chars (''-'' @ spaces))]),
                       exactly 4 digit, WordBoundary],
       rp_global = True,
       rp_replacement = ''****-****-****-****''\<rparr>,
      \<lparr>rp_name = ''EMAIL'',
       rp_regex = seq [WordBoundary,
                       atLeastTimes 1 (Chars (uppers @ lowers @ digits @ ''._%+-'')),
                       lit ''@'',
                       atLeastTimes 1 (Chars (uppers @ lowers @ digits @ ''.-'')),
                       lit ''.'',
                       atLeastTimes 2 (Chars (uppers @ ''|'' @ lowers)),
                       WordBoundary],
       rp_global = True,
       rp_replacement = ''[EMAIL_REDACTED]''\<rparr>,
      \<lparr>rp_name = ''PHONE'',
       rp_regex = seq [opt (seq [opt (lit ''+''), lit ''1'', opt (Chars (''-.'' @ spaces))]),
                       opt (lit ''(''), exactly 3 digit, opt (lit '')''),
                       opt (Chars (''-.'' @ spaces)), exactly 3 digit,
                       opt (Chars (''-.'' @ spaces)), exactly 4 digit, WordBoundary],
       rp_global = True,
       rp_replacement = ''[PHONE_REDACTED]''\<rparr>]"

definition redactString :: "RedactionPattern list \<Rightarrow> string \<Rightarrow> string" where
  "redactString patterns v =
     foldl (\<lambda>redacted p. replace (rp_regex p) (rp_global p) (rp_replacement p) redacted)
       v patterns"

definition sensitivePatterns :: "regex list" where
  "sensitivePatterns =
     [lit_i ''password'',
      lit_i ''secret'',
      lit_i ''token'',
      seq [lit_i ''api'', opt (Chars ''_-''), lit_i ''key''],
      lit_i ''auth'',
      lit_i ''credential'',
      seq [lit_i ''private'', opt (Chars ''_-''), lit_i ''key'']]"

definition isSensitiveKey :: "string \<Rightarrow> bool" where
  "isSensitiveKey key = list_ex (\<lambda>pattern. regex_test pattern key) sensitivePatterns"

text \<open>
  The values \<open>redactObject\<close> walks: an object is the list of its own enumerable
  properties, keys distinct, in the order of \<open>Object.entries\<close>. The result object is
  built by assignments \<open>redacted[key] = ...\<close> on a fresh \<open>{}\<close>. For every key but one
  the assignment creates the own property. For the key \<open>__proto__\<close> (an own key of an
  object that \<open>JSON.parse\<close> built) the assignment reaches the accessor of
  \<open>Object.prototype\<close> instead, which sets the prototype or does nothing, and no own
  property is created: the entry is missing from the result.
\<close>

datatype json =
    JNull
  | JUndefined
  | JString string
  | JNumber int
  | JBool bool
  | JArray "json list"
  | JObject "(string \<times> json) list"

fun redactObject :: "RedactionPattern list \<Rightarrow> json \<Rightarrow> json"
  and redactItems :: "RedactionPattern list \<Rightarrow> json list \<Rightarrow> json list"
  and redactEntries :: "RedactionPattern list \<Rightarrow> (string \<times> json) list \<Rightarrow> (string \<times> json) list"
  where
  "redactObject ps JNull = JNull"
| "redactObject ps JUndefined = JUndefined"
| "redactObject ps (JString s) = JString (redactString ps s)"
| "redactObject ps (JNumber n) = JNumber n"
| "redactObject ps (JBool b) = JBool b"
| "redactObject ps (JArray items) = JArray (redactItems ps items)"
| "redactObject ps (JObject entries) = JObject (redactEntries ps entries)"
| "redactItems ps [] = []"
| "redactItems ps (item # items) = redactObject ps item # redactItems ps items"
| "redactEntries ps [] = []"
| "redactEntries ps ((key, v) # entries) =
     (if key = ''__proto__'' then redactEntries ps entries
      else (key, if isSensitiveKey key then JString ''[REDACTED]'' else redactObject ps v)
             # redactEntries ps entries)"

text \<open>
  Reading inside a value, for stating what \<open>redactObject\<close> keeps: a path of property
  names and array indices, followed through own properties and array elements.
\<close>

datatype step = Key string | Index nat

fun lookup :: "json \<Rightarrow> step list \<Rightarrow> json option" where
  "lookup v [] = Some v"
| "lookup (JObject entries) (Key k # path) =
     (case map_of entries k of None \<Rightarrow> None | Some w \<Rightarrow> lookup w path)"
| "lookup (JArray items) (Index i # path) =
     (if i < length items then lookup (items ! i) path else None)"
| "lookup v (st # path) = None"

fun isScalar :: "json \<Rightarrow> bool" where
  "isScalar (JNumber n) = True"
| "isScalar (JBool b) = True"
| "isScalar JNull = True"
| "isScalar JUndefined = True"
| "isScalar v = False"

section \<open>Invariants and runs\<close>

text \<open>The invariant of an access decision: a refusal never asks for an approval.\<close>

definition decision_ok :: "AccessDecision \<Rightarrow> bool" where
  "decision_ok d = (granted d = False \<longrightarrow> approvalRequired d = False)"

definition cache_ok :: "PolicyCache \<Rightarrow> bool" where
  "cache_ok pc = (\<forall>e \<in> set (cache pc). decision_ok (entry_value (snd e)))"

text \<open>
  The engines a program can hold: a new one, and what \<open>checkPermission\<close> and
  \<open>clearCache\<close> leave behind. The cache is private, so nothing else writes to it.
\<close>

inductive reachable :: "PermissionEngine \<Rightarrow> bool" where
  fresh: "reachable (new_PermissionEngine cacheTtlMs)"
| checked: "reachable eng \<Longrightarrow> reachable (snd (checkPermission eng now ctx resource action targetScope))"
| cleared: "reachable eng \<Longrightarrow> reachable (clearCache eng)"

text \<open>A sequence of \<open>set\<close> calls, each with its clock reading, key and value.\<close>

definition set_all :: "PolicyCache \<Rightarrow> (int \<times> string \<times> AccessDecision) list \<Rightarrow> PolicyCache" where
  "set_all c ops = foldl (\<lambda>acc op. cache_set acc (fst op) (fst (snd op)) (snd (snd op))) c ops"

text \<open>
  The entries \<open>evictOldest\<close> picks, and the invariant of a cache that only \<open>set\<close> has
  written to: distinct keys and a size within \<open>maxSize\<close>.
\<close>

definition evicted :: "PolicyCache \<Rightarrow> (string \<times> CacheEntry) list" where
  "evicted c = take (nat (entriesToEvict (maxSize c))) (sorted_entries (cache c))"

definition cache_inv :: "PolicyCache \<Rightarrow> bool" where
  "cache_inv c = (distinct (map fst (cache c)) \<and> int (cache_size c) \<le> maxSize c)"

section \<open>Effective roles\<close>

lemma set_set_add: "set (set_add x s) = insert x (set s)"
  by (auto simp: set_add_def)

lemma set_add_each: "set (add_each xs s) = set xs \<union> set s"
  unfolding add_each_def
  by (induction xs arbitrary: s) (auto simp: set_set_add)

lemma set_fold_implied:
  "set (foldl (\<lambda>acc r. add_each (getImpliedRoles (ur_role r)) acc) s gs)
     = set s \<union> (\<Union>g \<in> set gs. set (getImpliedRoles (ur_role g)))"
  by (induction gs arbitrary: s) (auto simp: set_add_each)

lemma implied_OrgMember: "getImpliedRoles OrgMember = [OrgMember]"
  by (simp add: getImpliedRoles_def getRoleLevel_def startsWith_def level_or_0_def
      ORG_HIERARCHY_def)

lemma highest_fold_mem:
  "foldl (\<lambda>highest current.
                   case highest of
                     None \<Rightarrow> Some (ur_role current)
                   | Some h \<Rightarrow>
                       if getRoleLevel (ur_role current) > getRoleLevel h
                       then Some (ur_role current) else Some h) a gs = Some r
   \<Longrightarrow> a = Some r \<or> r \<in> ur_role ` set gs"
  by (induction gs arbitrary: a) (auto split: option.splits if_splits)

lemma getHighestRole_mem:
  "getHighestRole roles scope = Some r \<Longrightarrow> r \<in> ur_role ` set roles"
  unfolding getHighestRole_def Let_def
  by (auto split: if_splits dest!: highest_fold_mem)

lemma implied_WsAdmin: "getImpliedRoles WsAdmin = [WsAdmin, WsMember, WsViewer]"
  by (simp add: getImpliedRoles_def getRoleLevel_def startsWith_def level_or_0_def
      WS_HIERARCHY_def)

lemma highest_fold_level:
  "foldl (\<lambda>highest current.
                   case highest of
                     None \<Rightarrow> Some (ur_role current)
                   | Some h \<Rightarrow>
                       if getRoleLevel (ur_role current) > getRoleLevel h
                       then Some (ur_role current) else Some h) a gs = Some r
   \<Longrightarrow> (\<forall>h. a = Some h \<longrightarrow> getRoleLevel h \<le> getRoleLevel r)
       \<and> (\<forall>g \<in> set gs. getRoleLevel (ur_role g) \<le> getRoleLevel r)"
proof (induction gs arbitrary: a)
  case Nil
  then show ?case by simp
next
  case (Cons g gs)
  let ?a' = "case a of None \<Rightarrow> Some (ur_role g)
             | Some h \<Rightarrow> if getRoleLevel (ur_role g) > getRoleLevel h
                         then Some (ur_role g) else Some h"
  from Cons.prems have f: "foldl (\<lambda>highest current.
                   case highest of
                     None \<Rightarrow> Some (ur_role current)
                   | Some h \<Rightarrow>
                       if getRoleLevel (ur_role current) > getRoleLevel h
                       then Some (ur_role current) else Some h) ?a' gs = Some r"
    by simp
  from Cons.IH[OF f]
  have ih: "(\<forall>h. ?a' = Some h \<longrightarrow> getRoleLevel h \<le> getRoleLevel r)
            \<and> (\<forall>g \<in> set gs. getRoleLevel (ur_role g) \<le> getRoleLevel r)" .
  then show ?case
    by (cases a) (auto split: if_splits)
qed

lemma highest_fold_Some:
  "\<exists>r. foldl (\<lambda>highest current.
                   case highest of
                     None \<Rightarrow> Some (ur_role current)
                   | Some h \<Rightarrow>
                       if getRoleLevel (ur_role current) > getRoleLevel h
                       then Some (ur_role current) else Some h) (Some h) gs = Some r"
  by (induction gs arbitrary: h) auto

lemma level_3_roles: "3 \<le> getRoleLevel r \<Longrightarrow> r = OrgOwner \<or> r = WsAdmin"
  by (cases r)
     (simp_all add: getRoleLevel_def startsWith_def level_or_0_def ORG_HIERARCHY_def
        WS_HIERARCHY_def)

text \<open>
  What holds of the escalation on the grants themselves. A grant of \<open>org:owner\<close> that
  applies at the organisation (its scope is the organisation or the wildcard) always
  brings the three workspace roles: the role found at the organisation has level 3, so
  it is \<open>org:owner\<close>, which escalates, or \<open>ws:admin\<close>, which implies the three. A user
  all of whose grants are \<open>org:member\<close> gets none of them.
\<close>

lemma org_owner_always_escalates:
  assumes "g \<in> set grants" and "ur_role g = OrgOwner"
    and "ur_scope g = org \<or> ur_scope g = ''*''"
  shows "{WsAdmin, WsMember, WsViewer} \<subseteq> set (getEffectiveRoles grants ws org)"
proof -
  let ?app = "filter (\<lambda>r. ur_scope r = org \<or> ur_scope r = ''*'') grants"
  have gin: "g \<in> set ?app" using assms by simp
  then have ne: "length ?app \<noteq> 0" by (cases ?app) auto
  obtain x xs where app: "?app = x # xs" using gin by (cases ?app) auto
  obtain r where fr: "foldl (\<lambda>highest current.
                   case highest of
                     None \<Rightarrow> Some (ur_role current)
                   | Some h \<Rightarrow>
                       if getRoleLevel (ur_role current) > getRoleLevel h
                       then Some (ur_role current) else Some h) (Some (ur_role x)) xs = Some r"
    using highest_fold_Some by blast
  have r: "getHighestRole grants org = Some r"
    using app fr by (simp add: getHighestRole_def Let_def)
  from r ne have f: "foldl (\<lambda>highest current.
                   case highest of
                     None \<Rightarrow> Some (ur_role current)
                   | Some h \<Rightarrow>
                       if getRoleLevel (ur_role current) > getRoleLevel h
                       then Some (ur_role current) else Some h) None ?app = Some r"
    by (simp add: getHighestRole_def Let_def split: if_splits)
  from highest_fold_level[OF f] gin
  have "getRoleLevel (ur_role g) \<le> getRoleLevel r" by blast
  moreover have "getRoleLevel OrgOwner = 3"
    by (simp add: getRoleLevel_def startsWith_def level_or_0_def ORG_HIERARCHY_def)
  ultimately have "3 \<le> getRoleLevel r" using assms(2) by simp
  then have "r = OrgOwner \<or> r = WsAdmin" by (rule level_3_roles)
  with r show ?thesis
    by (auto simp: getEffectiveRoles_def set_fold_implied set_set_add set_add_each
        implied_WsAdmin)
qed

lemma org_member_gains_no_workspace_role:
  assumes all: "\<forall>g \<in> set grants. ur_role g = OrgMember"
  shows "set (getEffectiveRoles grants ws org) \<inter> {WsAdmin, WsMember, WsViewer} = {}"
proof -
  have org: "getHighestRole grants org = None \<or> getHighestRole grants org = Some OrgMember"
  proof (cases "getHighestRole grants org")
    case None
    then show ?thesis by simp
  next
    case (Some r)
    from getHighestRole_mem[OF Some] all have "r = OrgMember" by auto
    with Some show ?thesis by simp
  qed
  have "set (getEffectiveRoles grants ws org) \<subseteq> {OrgMember}"
    using org all
    by (auto simp: getEffectiveRoles_def set_fold_implied set_add_each implied_OrgMember)
  then show ?thesis by auto
qed

text \<open>
  Claim C3. The claim says that a user whose highest organisation role is \<open>org:owner\<close>
  or \<open>org:admin\<close> has \<open>ws:admin\<close>, \<open>ws:member\<close> and \<open>ws:viewer\<close> among the effective
  roles of any workspace. \<open>getHighestRole\<close> compares levels across the two families
  and keeps the earlier grant on a tie: for a user who holds \<open>ws:member\<close> on every
  workspace (scope \<open>*\<close>) and then \<open>org:admin\<close> on \<open>org1\<close>, the role found at \<open>org1\<close>
  is \<open>ws:member\<close> (level 2 against level 2), and the effective roles in \<open>ws1\<close> are
  \<open>ws:member\<close> and \<open>ws:viewer\<close> only: no \<open>ws:admin\<close>, and no organisation role
  either. The same two grants in the other order escalate.
\<close>

theorem org_admin_escalation_lost:
  "getHighestRole
     [\<lparr>ur_userId = ''user1'', ur_role = WsMember, ur_scope = ''*'',
       ur_grantedAt = 0, ur_grantedBy = ''owner''\<rparr>,
      \<lparr>ur_userId = ''user1'', ur_role = OrgAdmin, ur_scope = ''org1'',
       ur_grantedAt = 1, ur_grantedBy = ''owner''\<rparr>] ''org1'' = Some WsMember
   \<and> getEffectiveRoles
     [\<lparr>ur_userId = ''user1'', ur_role = WsMember, ur_scope = ''*'',
       ur_grantedAt = 0, ur_grantedBy = ''owner''\<rparr>,
      \<lparr>ur_userId = ''user1'', ur_role = OrgAdmin, ur_scope = ''org1'',
       ur_grantedAt = 1, ur_grantedBy = ''owner''\<rparr>] ''ws1'' ''org1''
     = [WsMember, WsViewer]
   \<and> getEffectiveRoles
     [\<lparr>ur_userId = ''user1'', ur_role = OrgAdmin, ur_scope = ''org1'',
       ur_grantedAt = 1, ur_grantedBy = ''owner''\<rparr>,
      \<lparr>ur_userId = ''user1'', ur_role = WsMember, ur_scope = ''*'',
       ur_grantedAt = 0, ur_grantedBy = ''owner''\<rparr>] ''ws1'' ''org1''
     = [OrgAdmin, OrgMember, WsAdmin, WsMember, WsViewer]"
  by code_simp

section \<open>Default grants and custom policies\<close>

text \<open>
  Claim C1. For every engine state, clock reading, context, resource, action and target
  scope: if the default grant table matches the caller's effective roles at the
  evaluated scope, \<open>checkPermission\<close> returns \<open>granted = true\<close> and
  \<open>approvalRequired = false\<close> (reason "Granted by role permissions", no policy id) and
  leaves the engine as it was, whatever list of policy rules the context carries: the
  rules are not consulted, so they cannot reduce or override the built-in grant.
\<close>

theorem default_grant_not_overridden:
  assumes "checkDefaultPermissions
             (getEffectiveRoles (userRoles ctx) (str_or (workspaceId ctx) []) (orgId ctx))
             resource action (str_or targetScope (str_or (workspaceId ctx) (orgId ctx)))"
  shows "checkPermission eng now (ctx\<lparr>policies := pols\<rparr>) resource action targetScope
           = (\<lparr>granted = True, approvalRequired = False,
               reason = ''Granted by role permissions'', policyId = None\<rparr>, eng)"
  using assms by (simp add: checkPermission_def)

theorem default_grant_not_overridden_witness:
  "checkPermission (new_PermissionEngine 60000) 0
     \<lparr>userId = ''user1'', orgId = ''org1'', workspaceId = Some ''ws1'',
      userRoles = [\<lparr>ur_userId = ''user1'', ur_role = WsMember, ur_scope = ''ws1'',
                    ur_grantedAt = 0, ur_grantedBy = ''admin''\<rparr>],
      policies = Some [\<lparr>rule_id = ''policy2'', rule_name = ''Tools need approval'',
                        rule_description = ''Members run tools with approval'',
                        rule_roles = [''ws:member''],
                        rule_permissions = [grant ''tool'' ''execute'' ''ws1''],
                        rule_approvalRequired = True\<rparr>]\<rparr>
     ''tool'' ''execute'' (Some ''ws1'')
   = (\<lparr>granted = True, approvalRequired = False,
       reason = ''Granted by role permissions'', policyId = None\<rparr>,
      new_PermissionEngine 60000)"
proof -
  let ?ctx = "\<lparr>userId = ''user1'', orgId = ''org1'', workspaceId = Some ''ws1'',
      userRoles = [\<lparr>ur_userId = ''user1'', ur_role = WsMember, ur_scope = ''ws1'',
                    ur_grantedAt = 0, ur_grantedBy = ''admin''\<rparr>],
      policies = None\<rparr>"
  have h: "checkDefaultPermissions
             (getEffectiveRoles (userRoles ?ctx) (str_or (workspaceId ?ctx) []) (orgId ?ctx))
             ''tool'' ''execute'' (str_or (Some ''ws1'') (str_or (workspaceId ?ctx) (orgId ?ctx)))"
    by code_simp
  from default_grant_not_overridden[OF h]
  show ?thesis by simp
qed

text \<open>
  Claim C2. The claim says that a default grant with scope \<open>'workspace'\<close> matches only
  the context's current workspace. The scope test of \<open>checkDefaultPermissions\<close> holds
  for every evaluated scope once the grant's scope is the literal \<open>'workspace'\<close>: a
  user whose only role is \<open>ws:member\<close> in \<open>ws1\<close>, asking from \<open>ws1\<close> for
  \<open>agent\<close>/\<open>read\<close> with the explicit target scope \<open>ws2\<close>, is granted by role
  permissions.
\<close>

theorem workspace_grant_crosses_scope:
  "checkPermission (new_PermissionEngine 60000) 0
     \<lparr>userId = ''user1'', orgId = ''org1'', workspaceId = Some ''ws1'',
      userRoles = [\<lparr>ur_userId = ''user1'', ur_role = WsMember, ur_scope = ''ws1'',
                    ur_grantedAt = 0, ur_grantedBy = ''admin''\<rparr>],
      policies = None\<rparr>
     ''agent'' ''read'' (Some ''ws2'')
   = (\<lparr>granted = True, approvalRequired = False,
       reason = ''Granted by role permissions'', policyId = None\<rparr>,
      new_PermissionEngine 60000)"
  by code_simp

section \<open>The decision invariant\<close>

lemma set_delete_subset: "set (AList.delete k es) \<subseteq> set es"
  by (auto simp: AList.delete_eq)

lemma set_delete_keys_subset: "set (delete_keys ks es) \<subseteq> set es"
  unfolding delete_keys_def
proof (induction ks arbitrary: es)
  case Nil then show ?case by simp
next
  case (Cons k ks)
  have "set (foldl (\<lambda>acc k. AList.delete k acc) (AList.delete k es) ks) \<subseteq> set (AList.delete k es)"
    by (rule Cons.IH)
  then show ?case using set_delete_subset[of k es] by auto
qed

lemma set_update_subset: "set (AList.update k v es) \<subseteq> insert (k, v) (set es)"
  by (induction es) auto

lemma cache_ok_evictOldest: "cache_ok pc \<Longrightarrow> cache_ok (evictOldest pc)"
  using set_delete_keys_subset by (fastforce simp: cache_ok_def evictOldest_def)

lemma cache_ok_set: "cache_ok pc \<Longrightarrow> decision_ok d \<Longrightarrow> cache_ok (cache_set pc now key d)"
proof -
  assume ok: "cache_ok pc" and d: "decision_ok d"
  define c1 where "c1 = (if int (length (cache pc)) \<ge> maxSize pc then evictOldest pc else pc)"
  have c1: "cache_ok c1" using ok cache_ok_evictOldest by (simp add: c1_def)
  have "cache_set pc now key d
          = c1\<lparr>cache := AList.update key \<lparr>entry_value = d, entry_expiresAt = now + ttlMs c1\<rparr> (cache c1)\<rparr>"
    by (simp add: cache_set_def c1_def Let_def)
  then show ?thesis
    using c1 d set_update_subset[of key "\<lparr>entry_value = d, entry_expiresAt = now + ttlMs c1\<rparr>" "cache c1"]
    by (fastforce simp: cache_ok_def)
qed

lemma cache_get_ok:
  assumes "cache_ok pc" and "cache_get pc now key = (r, pc')"
  shows "cache_ok pc' \<and> (\<forall>d. r = Some d \<longrightarrow> decision_ok d)"
proof (cases "map_of (cache pc) key")
  case None
  with assms show ?thesis by (auto simp: cache_get_def cache_ok_def)
next
  case (Some entry)
  then have mem: "(key, entry) \<in> set (cache pc)" by (rule map_of_SomeD)
  with assms(1) have "decision_ok (entry_value entry)" by (fastforce simp: cache_ok_def)
  with assms Some show ?thesis
    using set_delete_subset[of key "cache pc"]
    by (fastforce simp: cache_get_def cache_ok_def split: if_splits)
qed

lemma scanPolicies_ok: "scanPolicies pols roles resource action scope = Some d \<Longrightarrow> decision_ok d"
  by (induction pols) (auto simp: decision_ok_def Let_def split: if_splits)

lemma checkPolicies_ok:
  assumes "cache_ok pc" and "checkPolicies pc now pols roles resource action scope = (d, pc')"
  shows "decision_ok d \<and> cache_ok pc'"
proof -
  obtain r pc1 where g: "cache_get pc now (cacheKey roles resource action scope) = (r, pc1)"
    by (cases "cache_get pc now (cacheKey roles resource action scope)")
  from cache_get_ok[OF assms(1) g] have ok1: "cache_ok pc1" and rok: "\<forall>d. r = Some d \<longrightarrow> decision_ok d"
    by auto
  show ?thesis
  proof (cases r)
    case (Some cached)
    with assms(2) g ok1 rok show ?thesis by (simp add: checkPolicies_def Let_def)
  next
    case None
    show ?thesis
    proof (cases "scanPolicies pols roles resource action scope")
      case (Some decision)
      with None assms(2) g ok1 scanPolicies_ok[OF Some] show ?thesis
        by (auto simp: checkPolicies_def Let_def cache_ok_set)
    next
      case N2: None
      have "decision_ok \<lparr>granted = False, approvalRequired = False,
                                reason = ''No matching policy found'', policyId = None\<rparr>"
        by (simp add: decision_ok_def)
      with None N2 assms(2) g ok1 show ?thesis
        by (auto simp: checkPolicies_def Let_def cache_ok_set)
    qed
  qed
qed

lemma checkPermission_ok:
  assumes "cache_ok (policyCache eng)"
    and "checkPermission eng now ctx resource action targetScope = (d, eng')"
  shows "decision_ok d \<and> cache_ok (policyCache eng')"
proof -
  let ?scope = "str_or targetScope (str_or (workspaceId ctx) (orgId ctx))"
  let ?roles = "getEffectiveRoles (userRoles ctx) (str_or (workspaceId ctx) []) (orgId ctx)"
  show ?thesis
  proof (cases "checkDefaultPermissions ?roles resource action ?scope")
    case True
    with assms show ?thesis by (auto simp: checkPermission_def decision_ok_def)
  next
    case False
    show ?thesis
    proof (cases "policies ctx")
      case None
      with False assms show ?thesis by (auto simp: checkPermission_def decision_ok_def)
    next
      case (Some ps)
      show ?thesis
      proof (cases ps)
        case Nil
        with Some False assms show ?thesis by (auto simp: checkPermission_def decision_ok_def)
      next
        case (Cons p ps')
        obtain pd pc' where cp: "checkPolicies (policyCache eng) now (p # ps') ?roles resource action ?scope = (pd, pc')"
          by (cases "checkPolicies (policyCache eng) now (p # ps') ?roles resource action ?scope")
        from checkPolicies_ok[OF assms(1) cp] have "decision_ok pd" "cache_ok pc'" by auto
        with Cons Some False assms cp show ?thesis by (auto simp: checkPermission_def)
      qed
    qed
  qed
qed

lemma reachable_cache_ok: "reachable eng \<Longrightarrow> cache_ok (policyCache eng)"
proof (induction rule: reachable.induct)
  case (fresh cacheTtlMs)
  then show ?case by (simp add: new_PermissionEngine_def new_PolicyCache_def cache_ok_def)
next
  case (checked eng now ctx resource action targetScope)
  then show ?case
    using checkPermission_ok[of eng now ctx resource action targetScope]
    by (cases "checkPermission eng now ctx resource action targetScope") auto
next
  case (cleared eng)
  then show ?case by (simp add: clearCache_def cache_clear_def cache_ok_def)
qed

text \<open>
  Claim C4. For every engine a program can reach (a new engine, then any calls of
  \<open>checkPermission\<close> and \<open>clearCache\<close>), the decision \<open>checkPermission\<close> returns,
  whether it comes from the default grants, from the policy scan, from the cache or from
  the default denial, satisfies: \<open>granted = false\<close> implies \<open>approvalRequired = false\<close>.
\<close>

theorem decision_invariant:
  assumes "reachable eng"
  shows "granted (fst (checkPermission eng now ctx resource action targetScope)) = False
         \<longrightarrow> approvalRequired (fst (checkPermission eng now ctx resource action targetScope)) = False"
  using checkPermission_ok[OF reachable_cache_ok[OF assms], of now ctx resource action targetScope]
  by (cases "checkPermission eng now ctx resource action targetScope") (auto simp: decision_ok_def)

theorem decision_invariant_witness:
  "granted (fst (checkPermission (new_PermissionEngine 60000) 0
         \<lparr>userId = ''user1'', orgId = ''org1'', workspaceId = Some ''ws1'',
          userRoles = [\<lparr>ur_userId = ''user1'', ur_role = WsViewer, ur_scope = ''ws1'',
                        ur_grantedAt = 0, ur_grantedBy = ''admin''\<rparr>],
          policies = Some [\<lparr>rule_id = ''policy2'', rule_name = ''Integration access'',
                            rule_description = ''Members read integrations with approval'',
                            rule_roles = [''ws:member''],
                            rule_permissions = [grant ''integration'' ''read'' ''ws1''],
                            rule_approvalRequired = True\<rparr>]\<rparr>
         ''tool'' ''execute'' (Some ''ws1''))) = False
   \<and> approvalRequired (fst (checkPermission (new_PermissionEngine 60000) 0
         \<lparr>userId = ''user1'', orgId = ''org1'', workspaceId = Some ''ws1'',
          userRoles = [\<lparr>ur_userId = ''user1'', ur_role = WsViewer, ur_scope = ''ws1'',
                        ur_grantedAt = 0, ur_grantedBy = ''admin''\<rparr>],
          policies = Some [\<lparr>rule_id = ''policy2'', rule_name = ''Integration access'',
                            rule_description = ''Members read integrations with approval'',
                            rule_roles = [''ws:member''],
                            rule_permissions = [grant ''integration'' ''read'' ''ws1''],
                            rule_approvalRequired = True\<rparr>]\<rparr>
         ''tool'' ''execute'' (Some ''ws1''))) = False"
proof -
  let ?ctx = "\<lparr>userId = ''user1'', orgId = ''org1'', workspaceId = Some ''ws1'',
          userRoles = [\<lparr>ur_userId = ''user1'', ur_role = WsViewer, ur_scope = ''ws1'',
                        ur_grantedAt = 0, ur_grantedBy = ''admin''\<rparr>],
          policies = Some [\<lparr>rule_id = ''policy2'', rule_name = ''Integration access'',
                            rule_description = ''Members read integrations with approval'',
                            rule_roles = [''ws:member''],
                            rule_permissions = [grant ''integration'' ''read'' ''ws1''],
                            rule_approvalRequired = True\<rparr>]\<rparr>"
  have r: "reachable (new_PermissionEngine 60000)"
    by (rule reachable.fresh)
  have g: "granted (fst (checkPermission (new_PermissionEngine 60000) 0 ?ctx
                           ''tool'' ''execute'' (Some ''ws1''))) = False"
    by code_simp
  from decision_invariant[OF r, of 0 ?ctx "''tool''" "''execute''" "Some ''ws1''"] g
  show ?thesis by blast
qed

section \<open>Approval workflow\<close>

lemma step_fresh:
  assumes "state r = Pending" "\<not> now > expiresAt r" "x \<in> set (approvers r)"
    "\<not> list_ex (\<lambda>a. approverId a = x) (approvals r)"
  shows "processAction r x v c now
     = Inr (updateState (r\<lparr>approvals := approvals r @ [\<lparr>approverId = x, verdict = v, timestamp = now, comment = c\<rparr>]\<rparr>) now)"
  using assms by (simp add: processAction_def Let_def)

text \<open>
  Claim C5. A pending request with three approvers, type \<open>majority\<close> and
  \<open>requiredApprovals = 2\<close>, on which nobody has acted and which is not past due: two
  approvals by different approvers end in \<open>approved\<close>, two denials end in \<open>denied\<close>,
  and one approval with one denial (in either order) leaves it \<open>pending\<close>. A pending
  \<open>sequential\<close> request on which \<open>approvers[0]\<close> has not acted: an approval from
  \<open>approvers[1]\<close> ends in \<open>denied\<close>.
\<close>

theorem approval_consensus:
  "(state r = Pending \<and> approvals r = [] \<and> req_type r = Majority \<and> length (approvers r) = 3
      \<and> requiredApprovals r = 2 \<and> x \<in> set (approvers r) \<and> y \<in> set (approvers r) \<and> x \<noteq> y
      \<and> \<not> t1 > expiresAt r \<and> \<not> t2 > expiresAt r
    \<longrightarrow> (\<exists>r1 r2. processAction r x Approve c1 t1 = Inr r1 \<and> state r1 = Pending
             \<and> processAction r1 y Approve c2 t2 = Inr r2 \<and> state r2 = Approved)
      \<and> (\<exists>r1 r2. processAction r x Deny c1 t1 = Inr r1 \<and> state r1 = Pending
             \<and> processAction r1 y Deny c2 t2 = Inr r2 \<and> state r2 = Denied)
      \<and> (\<exists>r1 r2. processAction r x Approve c1 t1 = Inr r1 \<and> state r1 = Pending
             \<and> processAction r1 y Deny c2 t2 = Inr r2 \<and> state r2 = Pending)
      \<and> (\<exists>r1 r2. processAction r x Deny c1 t1 = Inr r1 \<and> state r1 = Pending
             \<and> processAction r1 y Approve c2 t2 = Inr r2 \<and> state r2 = Pending))
   \<and> (state s = Pending \<and> req_type s = Sequential \<and> 2 \<le> length (approvers s)
        \<and> approvers s ! 1 \<noteq> approvers s ! 0
        \<and> approvers s ! 0 \<notin> approverId ` set (approvals s)
        \<and> approvers s ! 1 \<notin> approverId ` set (approvals s)
        \<and> \<not> t > expiresAt s
      \<longrightarrow> (\<exists>s1. processAction s (approvers s ! 1) Approve c t = Inr s1 \<and> state s1 = Denied))"
proof (intro conjI impI)
  assume h: "state r = Pending \<and> approvals r = [] \<and> req_type r = Majority \<and> length (approvers r) = 3
      \<and> requiredApprovals r = 2 \<and> x \<in> set (approvers r) \<and> y \<in> set (approvers r) \<and> x \<noteq> y
      \<and> \<not> t1 > expiresAt r \<and> \<not> t2 > expiresAt r"
  then show "\<exists>r1 r2. processAction r x Approve c1 t1 = Inr r1 \<and> state r1 = Pending
             \<and> processAction r1 y Approve c2 t2 = Inr r2 \<and> state r2 = Approved"
    by (simp add: processAction_def updateState_def finish_def Let_def)
  from h show "\<exists>r1 r2. processAction r x Deny c1 t1 = Inr r1 \<and> state r1 = Pending
             \<and> processAction r1 y Deny c2 t2 = Inr r2 \<and> state r2 = Denied"
    by (simp add: processAction_def updateState_def finish_def Let_def)
  from h show "\<exists>r1 r2. processAction r x Approve c1 t1 = Inr r1 \<and> state r1 = Pending
             \<and> processAction r1 y Deny c2 t2 = Inr r2 \<and> state r2 = Pending"
    by (simp add: processAction_def updateState_def finish_def Let_def)
  from h show "\<exists>r1 r2. processAction r x Deny c1 t1 = Inr r1 \<and> state r1 = Pending
             \<and> processAction r1 y Approve c2 t2 = Inr r2 \<and> state r2 = Pending"
    by (simp add: processAction_def updateState_def finish_def Let_def)
next
  assume h: "state s = Pending \<and> req_type s = Sequential \<and> 2 \<le> length (approvers s)
        \<and> approvers s ! 1 \<noteq> approvers s ! 0
        \<and> approvers s ! 0 \<notin> approverId ` set (approvals s)
        \<and> approvers s ! 1 \<notin> approverId ` set (approvals s)
        \<and> \<not> t > expiresAt s"
  let ?new = "\<lparr>approverId = approvers s ! 1, verdict = Approve, timestamp = t, comment = c\<rparr>"
  let ?apps = "filter (\<lambda>a. verdict a = Approve) (approvals s @ [?new])"
  obtain p ps where ap: "approvers s = p # ps" using h by (cases "approvers s") auto
  have mem: "approvers s ! 1 \<in> set (approvers s)" using h by simp
  have nd: "\<not> list_ex (\<lambda>a. approverId a = approvers s ! 1) (approvals s)"
  proof
    assume "list_ex (\<lambda>a. approverId a = approvers s ! 1) (approvals s)"
    then obtain a where "a \<in> set (approvals s)" "approverId a = approvers s ! 1"
      by (auto simp: list_ex_iff)
    then have "approvers s ! 1 \<in> approverId ` set (approvals s)" by force
    with h show False by blast
  qed
  have first: "\<forall>a \<in> set ?apps. approverId a \<noteq> p" using h ap by auto
  have ne: "?apps \<noteq> []" by simp
  have ooo: "outOfOrder ?apps (approvers s)"
  proof (cases ?apps)
    case Nil with ne show ?thesis by simp
  next
    case (Cons a rest)
    then have "a \<in> set ?apps" by simp
    with first have "approverId a \<noteq> p" by blast
    with Cons ap show ?thesis by simp
  qed
  have "processAction s (approvers s ! 1) Approve c t
          = Inr (updateState (s\<lparr>approvals := approvals s @ [?new]\<rparr>) t)"
    using step_fresh[of s t "approvers s ! 1" Approve c] h mem nd by simp
  moreover have "state (updateState (s\<lparr>approvals := approvals s @ [?new]\<rparr>) t) = Denied"
    using h ooo by (simp add: updateState_def finish_def Let_def)
  ultimately show "\<exists>s1. processAction s (approvers s ! 1) Approve c t = Inr s1 \<and> state s1 = Denied"
    by simp
qed

theorem approval_consensus_witness:
  "(\<exists>r1 r2. processAction
       (create ''approval_1'' ''requester1'' ''org1'' ''integration'' ''read'' ''ws1''
          \<lparr>cfg_type = Majority, cfg_approvers = [''user1'', ''user2'', ''user3''],
           expirationMinutes = 60, cfg_requiredApprovals = Some 2\<rparr> None 0)
       ''user1'' Approve None 1000 = Inr r1 \<and> state r1 = Pending
     \<and> processAction r1 ''user2'' Approve None 2000 = Inr r2 \<and> state r2 = Approved)
   \<and> (\<exists>s1. processAction
       (create ''approval_2'' ''requester1'' ''org1'' ''integration'' ''read'' ''ws1''
          \<lparr>cfg_type = Sequential, cfg_approvers = [''user1'', ''user2'', ''user3''],
           expirationMinutes = 60, cfg_requiredApprovals = None\<rparr> None 0)
       ''user2'' Approve None 1000 = Inr s1 \<and> state s1 = Denied)"
proof -
  let ?r = "create ''approval_1'' ''requester1'' ''org1'' ''integration'' ''read'' ''ws1''
          \<lparr>cfg_type = Majority, cfg_approvers = [''user1'', ''user2'', ''user3''],
           expirationMinutes = 60, cfg_requiredApprovals = Some 2\<rparr> None 0"
  let ?s = "create ''approval_2'' ''requester1'' ''org1'' ''integration'' ''read'' ''ws1''
          \<lparr>cfg_type = Sequential, cfg_approvers = [''user1'', ''user2'', ''user3''],
           expirationMinutes = 60, cfg_requiredApprovals = None\<rparr> None 0"
  have hr: "state ?r = Pending \<and> approvals ?r = [] \<and> req_type ?r = Majority
      \<and> length (approvers ?r) = 3 \<and> requiredApprovals ?r = 2
      \<and> ''user1'' \<in> set (approvers ?r) \<and> ''user2'' \<in> set (approvers ?r) \<and> ''user1'' \<noteq> ''user2''
      \<and> \<not> 1000 > expiresAt ?r \<and> \<not> 2000 > expiresAt ?r"
    by (simp add: create_def)
  have hs: "state ?s = Pending \<and> req_type ?s = Sequential \<and> 2 \<le> length (approvers ?s)
        \<and> approvers ?s ! 1 \<noteq> approvers ?s ! 0
        \<and> approvers ?s ! 0 \<notin> approverId ` set (approvals ?s)
        \<and> approvers ?s ! 1 \<notin> approverId ` set (approvals ?s)
        \<and> \<not> 1000 > expiresAt ?s"
    by (simp add: create_def)
  have s1: "approvers ?s ! 1 = ''user2''"
    by (simp add: create_def)
  from approval_consensus[of ?r "''user1''" "''user2''" 1000 2000 None None ?s 1000 None] hr hs
  have "(\<exists>r1 r2. processAction ?r ''user1'' Approve None 1000 = Inr r1 \<and> state r1 = Pending
             \<and> processAction r1 ''user2'' Approve None 2000 = Inr r2 \<and> state r2 = Approved)
        \<and> (\<exists>s1. processAction ?s (approvers ?s ! 1) Approve None 1000 = Inr s1 \<and> state s1 = Denied)"
    by blast
  then show ?thesis unfolding s1 .
qed

text \<open>
  Claim C10. In \<open>processAction\<close> the expiry check comes before the authorisation
  check and the duplicate check: for a pending request that is past due, every approver
  id (one that is not among the approvers, one that has already acted) and every action
  give back the request with state \<open>expired\<close> and the approvals list as it was, and
  nothing is thrown.
\<close>

theorem expiry_precedes_checks:
  assumes "state request = Pending" and "now > expiresAt request"
  shows "\<forall>approver action cmt.
           processAction request approver action cmt now = Inr (request\<lparr>state := Expired\<rparr>)
           \<and> approvals (request\<lparr>state := Expired\<rparr>) = approvals request"
  using assms by (simp add: processAction_def)

theorem expiry_precedes_checks_witness:
  "processAction
     \<lparr>req_id = ''approval_3'', req_userId = ''requester1'', req_orgId = ''org1'',
      req_workspaceId = None, req_resource = ''integration'', req_action = ''read'',
      req_scope = ''ws1'', req_type = Unanimous, approvers = [''user1'', ''user2''],
      requiredApprovals = 1, state = Pending, createdAt = 0, expiresAt = 60000,
      approvals = [\<lparr>approverId = ''user1'', verdict = Approve, timestamp = 10, comment = None\<rparr>],
      completedAt = None\<rparr>
     ''user1'' Approve None 60001
   = Inr \<lparr>req_id = ''approval_3'', req_userId = ''requester1'', req_orgId = ''org1'',
      req_workspaceId = None, req_resource = ''integration'', req_action = ''read'',
      req_scope = ''ws1'', req_type = Unanimous, approvers = [''user1'', ''user2''],
      requiredApprovals = 1, state = Expired, createdAt = 0, expiresAt = 60000,
      approvals = [\<lparr>approverId = ''user1'', verdict = Approve, timestamp = 10, comment = None\<rparr>],
      completedAt = None\<rparr>
   \<and> processAction
     \<lparr>req_id = ''approval_3'', req_userId = ''requester1'', req_orgId = ''org1'',
      req_workspaceId = None, req_resource = ''integration'', req_action = ''read'',
      req_scope = ''ws1'', req_type = Unanimous, approvers = [''user1'', ''user2''],
      requiredApprovals = 1, state = Pending, createdAt = 0, expiresAt = 60000,
      approvals = [\<lparr>approverId = ''user1'', verdict = Approve, timestamp = 10, comment = None\<rparr>],
      completedAt = None\<rparr>
     ''stranger'' Deny None 60001
   = Inr \<lparr>req_id = ''approval_3'', req_userId = ''requester1'', req_orgId = ''org1'',
      req_workspaceId = None, req_resource = ''integration'', req_action = ''read'',
      req_scope = ''ws1'', req_type = Unanimous, approvers = [''user1'', ''user2''],
      requiredApprovals = 1, state = Expired, createdAt = 0, expiresAt = 60000,
      approvals = [\<lparr>approverId = ''user1'', verdict = Approve, timestamp = 10, comment = None\<rparr>],
      completedAt = None\<rparr>"
proof -
  let ?r = "\<lparr>req_id = ''approval_3'', req_userId = ''requester1'', req_orgId = ''org1'',
      req_workspaceId = None, req_resource = ''integration'', req_action = ''read'',
      req_scope = ''ws1'', req_type = Unanimous, approvers = [''user1'', ''user2''],
      requiredApprovals = 1, state = Pending, createdAt = 0, expiresAt = 60000,
      approvals = [\<lparr>approverId = ''user1'', verdict = Approve, timestamp = 10, comment = None\<rparr>],
      completedAt = None\<rparr>"
  have p: "state ?r = Pending" by simp
  have e: "60001 > expiresAt ?r" by simp
  from expiry_precedes_checks[OF p e] show ?thesis by simp
qed

text \<open>
  Claim C6, as stated, fails on \<open>cancel\<close>, which has no expiry check: a request
  created with \<open>expirationMinutes = -1\<close> is pending and past due one millisecond later,
  and \<open>cancel\<close> moves it to \<open>cancelled\<close>.
\<close>

theorem expired_request_cancelled:
  "state (create ''approval_4'' ''requester1'' ''org1'' ''integration'' ''read'' ''ws1''
            \<lparr>cfg_type = Single, cfg_approvers = [''user1''], expirationMinutes = - 1,
             cfg_requiredApprovals = None\<rparr> None 100000) = Pending
   \<and> 100001 > expiresAt (create ''approval_4'' ''requester1'' ''org1'' ''integration'' ''read'' ''ws1''
            \<lparr>cfg_type = Single, cfg_approvers = [''user1''], expirationMinutes = - 1,
             cfg_requiredApprovals = None\<rparr> None 100000)
   \<and> cancel (create ''approval_4'' ''requester1'' ''org1'' ''integration'' ''read'' ''ws1''
            \<lparr>cfg_type = Single, cfg_approvers = [''user1''], expirationMinutes = - 1,
             cfg_requiredApprovals = None\<rparr> None 100000) 100001
     = Inr ((create ''approval_4'' ''requester1'' ''org1'' ''integration'' ''read'' ''ws1''
            \<lparr>cfg_type = Single, cfg_approvers = [''user1''], expirationMinutes = - 1,
             cfg_requiredApprovals = None\<rparr> None 100000)
          \<lparr>state := Cancelled, completedAt := Some 100001\<rparr>)"
  by (simp add: create_def cancel_def)

text \<open>
  Claim C6, amended. For every pending request that is past due, the next
  \<open>processAction\<close> and the next \<open>checkExpiration\<close> return it in state \<open>expired\<close>;
  a request created with \<open>expirationMinutes = -1\<close> is in that case at every later
  clock reading. Once expired the request is terminal: \<open>processAction\<close> and
  \<open>cancel\<close> fail on it and \<open>checkExpiration\<close> gives it back unchanged. So neither
  \<open>processAction\<close> nor \<open>checkExpiration\<close> ever moves such a request to
  \<open>approved\<close>, \<open>denied\<close> or \<open>cancelled\<close>.
\<close>

theorem expired_request_stays_expired:
  "(state request = Pending \<and> now > expiresAt request
      \<longrightarrow> processAction request approver action cmt now = Inr (request\<lparr>state := Expired\<rparr>)
        \<and> checkExpiration request now = request\<lparr>state := Expired, completedAt := Some now\<rparr>)
   \<and> (expirationMinutes config = - 1 \<and> created \<le> later
      \<longrightarrow> state (checkExpiration
                   (create newId user org resource act scope config ws created) later) = Expired
        \<and> processAction (create newId user org resource act scope config ws created)
             approver' action' cmt' later
           = Inr ((create newId user org resource act scope config ws created)\<lparr>state := Expired\<rparr>))
   \<and> (state ended = Expired
      \<longrightarrow> processAction ended approver'' action'' cmt'' t = Inl (NotPending Expired)
        \<and> cancel ended t = Inl (CannotCancel Expired)
        \<and> checkExpiration ended t = ended)"
  by (simp add: processAction_def checkExpiration_def cancel_def create_def)

theorem expired_request_stays_expired_witness:
  "state (checkExpiration
            (create ''approval_4'' ''requester1'' ''org1'' ''integration'' ''read'' ''ws1''
               \<lparr>cfg_type = Single, cfg_approvers = [''user1''], expirationMinutes = - 1,
                cfg_requiredApprovals = None\<rparr> None 100000) 100000) = Expired
   \<and> processAction
        (create ''approval_4'' ''requester1'' ''org1'' ''integration'' ''read'' ''ws1''
               \<lparr>cfg_type = Single, cfg_approvers = [''user1''], expirationMinutes = - 1,
                cfg_requiredApprovals = None\<rparr> None 100000) ''user1'' Approve None 100000
      = Inr ((create ''approval_4'' ''requester1'' ''org1'' ''integration'' ''read'' ''ws1''
               \<lparr>cfg_type = Single, cfg_approvers = [''user1''], expirationMinutes = - 1,
                cfg_requiredApprovals = None\<rparr> None 100000)\<lparr>state := Expired\<rparr>)
   \<and> cancel ((create ''approval_4'' ''requester1'' ''org1'' ''integration'' ''read'' ''ws1''
               \<lparr>cfg_type = Single, cfg_approvers = [''user1''], expirationMinutes = - 1,
                cfg_requiredApprovals = None\<rparr> None 100000)\<lparr>state := Expired\<rparr>) 100000
      = Inl (CannotCancel Expired)"
proof -
  let ?cfg = "\<lparr>cfg_type = Single, cfg_approvers = [''user1''], expirationMinutes = - 1,
                cfg_requiredApprovals = None\<rparr>"
  let ?r = "create ''approval_4'' ''requester1'' ''org1'' ''integration'' ''read'' ''ws1''
               ?cfg None 100000"
  have h1: "expirationMinutes ?cfg = - 1 \<and> (100000::int) \<le> 100000" by simp
  have h2: "state (?r\<lparr>state := Expired\<rparr>) = Expired" by simp
  from expired_request_stays_expired[where config = ?cfg and created = 100000
      and later = 100000 and newId = "''approval_4''" and user = "''requester1''"
      and org = "''org1''" and resource = "''integration''" and act = "''read''"
      and scope = "''ws1''" and ws = None and approver' = "''user1''" and action' = Approve
      and cmt' = None and ended = "?r\<lparr>state := Expired\<rparr>" and t = 100000] h1 h2
  show ?thesis by blast
qed

section \<open>Audit logger\<close>

text \<open>
  Claim C7. The claim says that a failed flush keeps the buffered events for the next
  timer tick. \<open>flush\<close> empties the buffer before the first write and the failure path
  does not put the events back. With two events buffered: when the sync rejects, the
  flush fails and the buffer is empty; when the first write rejects, the flush fails,
  nothing reached the stream and the buffer is empty.
\<close>

theorem failed_flush_drops_buffer:
  "flush \<lparr>buffer = [''evt_1'', ''evt_2''], flushing = False, written = []\<rparr> None False
     = (Inl SyncFailed,
        \<lparr>buffer = [], flushing = False, written = [''evt_1'', ''evt_2'']\<rparr>)
   \<and> flush \<lparr>buffer = [''evt_1'', ''evt_2''], flushing = False, written = []\<rparr> (Some 0) True
     = (Inl WriteFailed, \<lparr>buffer = [], flushing = False, written = []\<rparr>)"
  by (simp add: flush_def)

section \<open>Policy cache\<close>

lemma set_delete_eq: "set (AList.delete k es) = {e \<in> set es. fst e \<noteq> k}"
  by (auto simp: AList.delete_eq)

lemma set_delete_keys: "set (delete_keys ks es) = {e \<in> set es. fst e \<notin> set ks}"
  unfolding delete_keys_def
  by (induction ks arbitrary: es) (auto simp: set_delete_eq)

lemma distinct_delete_keys:
  "distinct (map fst es) \<Longrightarrow> distinct (map fst (delete_keys ks es))"
  unfolding delete_keys_def
  by (induction ks arbitrary: es) (auto simp: AList.distinct_delete)

lemma length_delete_present:
  "distinct (map fst es) \<Longrightarrow> k \<in> fst ` set es \<Longrightarrow> Suc (length (AList.delete k es)) = length es"
  by (induction es) (auto simp: image_iff)

lemma length_delete_keys:
  "distinct (map fst es) \<Longrightarrow> distinct ks \<Longrightarrow> set ks \<subseteq> fst ` set es
     \<Longrightarrow> length (delete_keys ks es) + length ks = length es"
proof (induction ks arbitrary: es)
  case Nil
  then show ?case by (simp add: delete_keys_def)
next
  case (Cons k ks)
  have d: "distinct (map fst (AList.delete k es))"
    using Cons.prems(1) by (simp add: AList.distinct_delete)
  have sub: "set ks \<subseteq> fst ` set (AList.delete k es)"
  proof
    fix x assume x: "x \<in> set ks"
    with Cons.prems(2) have "x \<noteq> k" by auto
    moreover from x Cons.prems(3) obtain e where "e \<in> set es" "fst e = x" by auto
    ultimately have "e \<in> {e \<in> set es. fst e \<noteq> k}" "fst e = x" by auto
    then show "x \<in> fst ` set (AList.delete k es)" unfolding set_delete_eq by (rule rev_image_eqI[OF _ sym])
  qed
  have "length (delete_keys ks (AList.delete k es)) + length ks = length (AList.delete k es)"
    using Cons.IH[OF d _ sub] Cons.prems(2) by simp
  moreover have "Suc (length (AList.delete k es)) = length es"
    using length_delete_present[of es k] Cons.prems by simp
  moreover have "delete_keys (k # ks) es = delete_keys ks (AList.delete k es)"
    by (simp add: delete_keys_def)
  ultimately show ?case by simp
qed

lemma length_update_le: "length (AList.update k v es) \<le> Suc (length es)"
  by (induction es) auto

lemma distinct_keys_sorted:
  "distinct (map fst es) \<Longrightarrow> distinct (map fst (sorted_entries es))"
  by (simp add: sorted_entries_def distinct_map)

lemma distinct_take_map: "distinct (map f xs) \<Longrightarrow> distinct (map f (take n xs))"
  by (simp add: take_map[symmetric] distinct_take del: take_map)

lemma evictOldest_alt: "evictOldest c = c\<lparr>cache := delete_keys (map fst (evicted c)) (cache c)\<rparr>"
  by (simp add: evictOldest_def evicted_def)

lemma set_evicted_subset: "set (evicted c) \<subseteq> set (cache c)"
proof -
  have "set (evicted c) \<subseteq> set (sorted_entries (cache c))"
    unfolding evicted_def by (rule set_take_subset)
  then show ?thesis by (simp add: sorted_entries_def)
qed

lemma length_evicted:
  "length (evicted c) = min (nat (entriesToEvict (maxSize c))) (length (cache c))"
  by (simp add: evicted_def sorted_entries_def)

lemma size_evictOldest:
  assumes "distinct (map fst (cache c))"
  shows "cache_size (evictOldest c) + min (nat (entriesToEvict (maxSize c))) (cache_size c)
           = cache_size c"
proof -
  have d: "distinct (map fst (evicted c))"
    unfolding evicted_def using distinct_keys_sorted[OF assms] by (rule distinct_take_map)
  have sub: "set (map fst (evicted c)) \<subseteq> fst ` set (cache c)"
    using set_evicted_subset[of c] by auto
  from length_delete_keys[OF assms d sub]
  show ?thesis by (simp add: evictOldest_alt cache_size_def length_evicted)
qed

lemma kept_after_evict:
  assumes "distinct (map fst (cache c))"
  shows "set (cache (evictOldest c)) = set (cache c) - set (evicted c)"
proof -
  have "\<And>e. e \<in> set (cache c) \<Longrightarrow> fst e \<in> fst ` set (evicted c) \<Longrightarrow> e \<in> set (evicted c)"
  proof -
    fix e assume e: "e \<in> set (cache c)" and k: "fst e \<in> fst ` set (evicted c)"
    then obtain e' where e': "e' \<in> set (evicted c)" "fst e' = fst e" by auto
    with set_evicted_subset[of c] have "e' \<in> set (cache c)" by auto
    with assms e e'(2) have "e' = e" by (meson distinct_map inj_onD)
    with e'(1) show "e \<in> set (evicted c)" by simp
  qed
  then show ?thesis
    by (auto simp: evictOldest_alt set_delete_keys)
qed

lemma evicted_oldest:
  assumes "distinct (map fst (cache c))"
    and "e \<in> set (evicted c)" and "s \<in> set (cache (evictOldest c))"
  shows "entry_expiresAt (snd e) \<le> entry_expiresAt (snd s)"
proof -
  let ?n = "nat (entriesToEvict (maxSize c))"
  let ?srt = "sorted_entries (cache c)"
  have srt: "sorted (map (\<lambda>e. entry_expiresAt (snd e)) ?srt)"
    by (simp add: sorted_entries_def)
  have "s \<in> set (cache c)" "s \<notin> set (evicted c)"
    using assms(3) kept_after_evict[OF assms(1)] by auto
  then have "s \<in> set ?srt" "s \<notin> set (take ?n ?srt)"
    by (simp_all add: sorted_entries_def evicted_def)
  then have sd: "s \<in> set (drop ?n ?srt)"
    by (metis Un_iff append_take_drop_id set_append)
  have "sorted (map (\<lambda>e. entry_expiresAt (snd e)) (take ?n ?srt) @ map (\<lambda>e. entry_expiresAt (snd e)) (drop ?n ?srt))"
    using srt by (simp add: map_append[symmetric] del: map_append)
  then have "\<forall>x \<in> set (take ?n ?srt). \<forall>y \<in> set (drop ?n ?srt).
               entry_expiresAt (snd x) \<le> entry_expiresAt (snd y)"
    by (auto simp: sorted_append)
  with assms(2) sd show ?thesis by (auto simp: evicted_def)
qed

lemma entriesToEvict_pos: "1 \<le> m \<Longrightarrow> 1 \<le> nat (entriesToEvict m)"
  by (simp add: entriesToEvict_def) 

lemma maxSize_evict: "maxSize (evictOldest c) = maxSize c"
  by (simp add: evictOldest_def)

lemma maxSize_set: "maxSize (cache_set c now k v) = maxSize c"
  by (simp add: cache_set_def Let_def evictOldest_def)

lemma cache_inv_set:
  assumes inv: "cache_inv c" and pos: "1 \<le> maxSize c"
  shows "cache_inv (cache_set c now k v)"
proof -
  define c1 where "c1 = (if int (length (cache c)) \<ge> maxSize c then evictOldest c else c)"
  let ?entry = "\<lparr>entry_value = v, entry_expiresAt = now + ttlMs c1\<rparr>"
  have eq: "cache_set c now k v = c1\<lparr>cache := AList.update k ?entry (cache c1)\<rparr>"
    by (simp add: cache_set_def c1_def Let_def)
  have d: "distinct (map fst (cache c))" using inv by (simp add: cache_inv_def)
  have d1: "distinct (map fst (cache c1))"
    using d by (simp add: c1_def evictOldest_alt distinct_delete_keys)
  have m1: "maxSize c1 = maxSize c" by (simp add: c1_def maxSize_evict)
  have room: "int (cache_size c1) + 1 \<le> maxSize c"
  proof (cases "int (length (cache c)) \<ge> maxSize c")
    case True
    then have full: "int (cache_size c) = maxSize c" using inv by (simp add: cache_inv_def cache_size_def)
    have "1 \<le> min (nat (entriesToEvict (maxSize c))) (cache_size c)"
      using entriesToEvict_pos[OF pos] full pos by simp
    with size_evictOldest[OF d] have "cache_size (evictOldest c) + 1 \<le> cache_size c" by linarith
    with full True show ?thesis by (simp add: c1_def)
  next
    case False
    then show ?thesis by (simp add: c1_def cache_size_def)
  qed
  have "length (AList.update k ?entry (cache c1)) \<le> Suc (length (cache c1))"
    by (rule length_update_le)
  with room have "int (cache_size (cache_set c now k v)) \<le> maxSize c"
    by (simp add: eq cache_size_def)
  moreover have "distinct (map fst (cache (cache_set c now k v)))"
    using d1 by (simp add: eq AList.distinct_update)
  ultimately show ?thesis by (simp add: cache_inv_def maxSize_set)
qed

lemma cache_inv_set_all:
  "cache_inv c \<Longrightarrow> 1 \<le> maxSize c \<Longrightarrow> cache_inv (set_all c ops) \<and> maxSize (set_all c ops) = maxSize c"
proof (induction ops arbitrary: c)
  case Nil
  then show ?case by (simp add: set_all_def)
next
  case (Cons op ops)
  let ?c' = "cache_set c (fst op) (fst (snd op)) (snd (snd op))"
  have "cache_inv ?c'" using Cons.prems by (rule cache_inv_set)
  moreover have "1 \<le> maxSize ?c'" using Cons.prems(2) by (simp add: maxSize_set)
  ultimately have "cache_inv (set_all ?c' ops) \<and> maxSize (set_all ?c' ops) = maxSize ?c'"
    by (rule Cons.IH)
  moreover have "set_all c (op # ops) = set_all ?c' ops" by (simp add: set_all_def)
  ultimately show ?case by (simp add: maxSize_set)
qed

lemma cache_inv_new: "0 \<le> m \<Longrightarrow> cache_inv (new_PolicyCache ttl m)"
  by (simp add: cache_inv_def new_PolicyCache_def cache_size_def)


text \<open>
  Claim C8, as stated, fails for a cache constructed with \<open>maxSize = 0\<close>: the first
  \<open>set\<close> evicts nothing (there is nothing to evict and the count is 0) and inserts, so
  the size is 1.
\<close>

theorem cache_size_exceeds_zero_max:
  "int (cache_size
         (cache_set (new_PolicyCache 1000 0) 0 ''key1''
            \<lparr>granted = True, approvalRequired = False, reason = ''Test'', policyId = None\<rparr>))
     > maxSize (new_PolicyCache 1000 0)"
  by (simp add: cache_set_def new_PolicyCache_def evictOldest_def entriesToEvict_def
      sorted_entries_def delete_keys_def cache_size_def)

text \<open>
  Claim C8, amended. For a cache constructed with \<open>maxSize\<close> at least 1, after every
  sequence of \<open>set\<close> calls the size is at most \<open>maxSize\<close>. When \<open>set\<close> is called on
  such a cache while it is full, it first evicts and then inserts; the eviction removes
  \<open>ceil(maxSize / 10)\<close> entries, and every removed entry expires no later than every
  entry that stays.
\<close>

theorem cache_size_bounded:
  assumes "1 \<le> m" and "c = set_all (new_PolicyCache ttl m) ops"
  shows "int (cache_size c) \<le> m
         \<and> (m \<le> int (cache_size c) \<longrightarrow>
              cache_set c now k v
                = (evictOldest c)\<lparr>cache := AList.update k
                     \<lparr>entry_value = v, entry_expiresAt = now + ttlMs c\<rparr> (cache (evictOldest c))\<rparr>
              \<and> cache_size (evictOldest c) + nat (entriesToEvict m) = cache_size c
              \<and> (\<forall>e \<in> set (cache c) - set (cache (evictOldest c)).
                   \<forall>s \<in> set (cache (evictOldest c)).
                     entry_expiresAt (snd e) \<le> entry_expiresAt (snd s)))"
proof -
  have new: "cache_inv (new_PolicyCache ttl m)" using assms(1) by (simp add: cache_inv_new)
  have mnew: "1 \<le> maxSize (new_PolicyCache ttl m)" using assms(1) by (simp add: new_PolicyCache_def)
  from cache_inv_set_all[OF new mnew, of ops]
  have inv: "cache_inv c" and mx: "maxSize c = m"
    by (simp_all add: assms(2) new_PolicyCache_def)
  then have d: "distinct (map fst (cache c))" and bound: "int (cache_size c) \<le> m"
    by (simp_all add: cache_inv_def)
  have full: "m \<le> int (cache_size c) \<longrightarrow>
              cache_set c now k v
                = (evictOldest c)\<lparr>cache := AList.update k
                     \<lparr>entry_value = v, entry_expiresAt = now + ttlMs c\<rparr> (cache (evictOldest c))\<rparr>
              \<and> cache_size (evictOldest c) + nat (entriesToEvict m) = cache_size c
              \<and> (\<forall>e \<in> set (cache c) - set (cache (evictOldest c)).
                   \<forall>s \<in> set (cache (evictOldest c)).
                     entry_expiresAt (snd e) \<le> entry_expiresAt (snd s))"
  proof
    assume ge: "m \<le> int (cache_size c)"
    have a: "cache_set c now k v
                = (evictOldest c)\<lparr>cache := AList.update k
                     \<lparr>entry_value = v, entry_expiresAt = now + ttlMs c\<rparr> (cache (evictOldest c))\<rparr>"
      using ge mx by (simp add: cache_set_def Let_def cache_size_def evictOldest_def)
    have "nat (entriesToEvict m) \<le> cache_size c"
      using ge bound assms(1) by (simp add: entriesToEvict_def)
    then have b: "cache_size (evictOldest c) + nat (entriesToEvict m) = cache_size c"
      using size_evictOldest[OF d] mx by (simp add: min_def)
    have cset: "set (cache c) - set (cache (evictOldest c)) \<subseteq> set (evicted c)"
      using kept_after_evict[OF d] by auto
    have cc: "\<forall>e \<in> set (cache c) - set (cache (evictOldest c)).
                   \<forall>s \<in> set (cache (evictOldest c)).
                     entry_expiresAt (snd e) \<le> entry_expiresAt (snd s)"
      using cset evicted_oldest[OF d] by blast
    from a b cc show "cache_set c now k v
                = (evictOldest c)\<lparr>cache := AList.update k
                     \<lparr>entry_value = v, entry_expiresAt = now + ttlMs c\<rparr> (cache (evictOldest c))\<rparr>
              \<and> cache_size (evictOldest c) + nat (entriesToEvict m) = cache_size c
              \<and> (\<forall>e \<in> set (cache c) - set (cache (evictOldest c)).
                   \<forall>s \<in> set (cache (evictOldest c)).
                     entry_expiresAt (snd e) \<le> entry_expiresAt (snd s))"
      by blast
  qed
  from bound full show ?thesis by blast
qed

theorem cache_size_bounded_witness:
  "int (cache_size (set_all (new_PolicyCache 10000 2)
          [(0, ''key0'', \<lparr>granted = True, approvalRequired = False, reason = ''Test 0'', policyId = None\<rparr>),
           (1, ''key1'', \<lparr>granted = True, approvalRequired = False, reason = ''Test 1'', policyId = None\<rparr>),
           (2, ''key2'', \<lparr>granted = True, approvalRequired = False, reason = ''Test 2'', policyId = None\<rparr>)]))
     \<le> 2"
proof -
  have m: "(1::int) \<le> 2" by simp
  from cache_size_bounded[OF m refl] show ?thesis by blast
qed

section \<open>PII redactor\<close>

lemma redactEntries_append:
  "redactEntries ps (xs @ ys) = redactEntries ps xs @ redactEntries ps ys"
  by (induction xs) auto

lemma proto_key_not_sensitive: "\<not> isSensitiveKey ''__proto__''"
  by code_simp

text \<open>
  What holds of the redactor. The two example strings are redacted as the default rules
  say. In any object, with any rules, a property whose key is sensitive gets the
  marker whatever its value was, the properties around it being treated as usual.
\<close>

lemma redact_ssn: "redactString DEFAULT_REDACTION_PATTERNS ''123-45-6789'' = ''***-**-****''"
  by code_simp

lemma redact_email: "redactString DEFAULT_REDACTION_PATTERNS ''john@x.com'' = ''[EMAIL_REDACTED]''"
  by code_simp

lemma password_key_sensitive: "isSensitiveKey ''password''"
  by code_simp

lemma sensitive_entry_replaced:
  assumes "isSensitiveKey key"
  shows "redactObject ps (JObject (before @ (key, v) # after))
           = JObject (redactEntries ps before @ (key, JString ''[REDACTED]'')
                        # redactEntries ps after)"
proof -
  have "key \<noteq> ''__proto__''" using assms proto_key_not_sensitive by auto
  with assms show ?thesis by (simp add: redactEntries_append)
qed

text \<open>
  Reading a value inside a value: \<open>Key k\<close> is \<open>v[k]\<close> on an object's own properties,
  \<open>Index i\<close> is \<open>v[i]\<close> on an array. A number, a boolean, \<open>null\<close> or \<open>undefined\<close>
  found along a path none of whose keys is sensitive or \<open>__proto__\<close> is found again,
  unchanged, along the same path in the result.
\<close>

lemma map_of_redactEntries:
  assumes "k \<noteq> ''__proto__''"
  shows "map_of (redactEntries ps es) k
           = map_option (\<lambda>v. if isSensitiveKey k then JString ''[REDACTED]'' else redactObject ps v)
               (map_of es k)"
  using assms by (induction es) auto

lemma nth_redactItems:
  "i < length xs \<Longrightarrow> redactItems ps xs ! i = redactObject ps (xs ! i)"
proof (induction xs arbitrary: i)
  case Nil
  then show ?case by simp
next
  case (Cons x xs)
  then show ?case by (cases i) auto
qed

lemma length_redactItems: "length (redactItems ps xs) = length xs"
  by (induction xs) auto

lemma scalars_pass_through:
  assumes "lookup v path = Some leaf" and "isScalar leaf"
    and "\<forall>k. Key k \<in> set path \<longrightarrow> \<not> isSensitiveKey k \<and> k \<noteq> ''__proto__''"
  shows "lookup (redactObject ps v) path = Some leaf"
  using assms
proof (induction path arbitrary: v)
  case Nil
  then show ?case by (cases leaf) auto
next
  case (Cons st path)
  show ?case
  proof (cases st)
    case (Key k)
    with Cons.prems(1) obtain es where v: "v = JObject es"
      by (cases v) auto
    with Cons.prems(1) Key obtain w where w: "map_of es k = Some w" "lookup w path = Some leaf"
      by (auto split: option.splits)
    from Cons.prems(3) Key have k: "\<not> isSensitiveKey k" "k \<noteq> ''__proto__''" by auto
    have rest: "\<forall>k. Key k \<in> set path \<longrightarrow> \<not> isSensitiveKey k \<and> k \<noteq> ''__proto__''"
      using Cons.prems(3) by auto
    have "lookup (redactObject ps w) path = Some leaf"
      using Cons.IH[OF w(2) Cons.prems(2) rest] .
    with v w(1) k Key show ?thesis
      by (simp add: map_of_redactEntries)
  next
    case (Index i)
    with Cons.prems(1) obtain xs where v: "v = JArray xs"
      by (cases v) auto
    with Cons.prems(1) Index have i: "i < length xs" "lookup (xs ! i) path = Some leaf"
      by (auto split: if_splits)
    have rest: "\<forall>k. Key k \<in> set path \<longrightarrow> \<not> isSensitiveKey k \<and> k \<noteq> ''__proto__''"
      using Cons.prems(3) by auto
    have "lookup (redactObject ps (xs ! i)) path = Some leaf"
      using Cons.IH[OF i(2) Cons.prems(2) rest] .
    with v i(1) Index show ?thesis
      by (simp add: nth_redactItems length_redactItems)
  qed
qed

text \<open>
  Claim C9. The claim says that non-string scalars outside the sensitive keys pass
  through \<open>redactObject\<close> unchanged. A scalar under the own key \<open>__proto__\<close>, which is
  not a sensitive key, does not: the copy loop assigns it to \<open>redacted['__proto__']\<close>
  and no property is created. For the object \<open>{"__proto__": 5, "count": 3}\<close> as
  \<open>JSON.parse\<close> builds it, the result is \<open>{"count": 3}\<close>.
\<close>

theorem proto_entry_dropped:
  "redactObject DEFAULT_REDACTION_PATTERNS
     (JObject [(''__proto__'', JNumber 5), (''count'', JNumber 3)])
   = JObject [(''count'', JNumber 3)]"
  by code_simp


end
